theory Spec2Isabelle
  imports Complex_Main "HOL-Library.AList"
begin

section \<open>Python values used by the router and the two specialists\<close>

text \<open>
  Texts are Python \<open>str\<close> values, modelled as \<open>string\<close>: a character is a code point
  below 256, read by \<open>of_char\<close>. On these code points \<open>str.lower\<close> works character by
  character and moves A to Z and the capital letters 192 to 222 of Latin-1, the sign
  215 apart, up by 32. Python \<open>int\<close> is \<open>int\<close>; the confidence values, which the source
  computes on floats from the decimal literals 0.05 to 0.95, are \<open>real\<close> numbers with
  those literals exact.
\<close>

datatype py_error = KeyError | ValueError

datatype pyval = Str string | StrList "string list"

type_synonym py_dict = "(string \<times> pyval) list"

definition lower_char :: "char \<Rightarrow> char" where
  "lower_char c =
     (let n = of_char c :: nat
      in if (65 \<le> n \<and> n \<le> 90) \<or> (192 \<le> n \<and> n \<le> 222 \<and> n \<noteq> 215) then char_of (n + 32)
         else c)"

definition lower :: "string \<Rightarrow> string" where
  "lower s = map lower_char s"

text \<open>\<open>t.startswith(k)\<close> and the substring test \<open>k in t\<close>.\<close>

fun startswith :: "string \<Rightarrow> string \<Rightarrow> bool" where
  "startswith t [] = True"
| "startswith [] (k # ks) = False"
| "startswith (c # cs) (k # ks) = (c = k \<and> startswith cs ks)"

fun str_in :: "string \<Rightarrow> string \<Rightarrow> bool" where
  "str_in k [] = (k = [])"
| "str_in k (c # cs) = (startswith (c # cs) k \<or> str_in k cs)"

text \<open>\<open>sum(1 for keyword in keywords if keyword in text_lower)\<close>\<close>

definition count_keywords :: "string list \<Rightarrow> string \<Rightarrow> int" where
  "count_keywords keywords text_lower =
     sum_list (map (\<lambda>keyword. 1) (filter (\<lambda>keyword. str_in keyword text_lower) keywords))"

section \<open>Regular expressions of the \<open>re\<close> module\<close>

text \<open>
  The patterns of the router use literals, \<open>\s\<close>, \<open>\w\<close>, grouping, \<open>?\<close> and \<open>+\<close> only:
  no anchors, no look-around, no back-references. For such a pattern \<open>re.search\<close>
  succeeds exactly when some substring of the text belongs to the pattern's language.
\<close>

datatype regex =
    Nul
  | Eps
  | Lit char
  | Space
  | WordChar
  | Seq regex regex
  | Alt regex regex
  | Star regex

text \<open>
  The classes \<open>\s\<close> and \<open>\w\<close> of a \<open>str\<close> pattern on the code points below 256:
  \<open>\s\<close> holds the ASCII white space, the separators 28 to 31, NEL (133) and the
  no-break space (160); \<open>\w\<close> holds the underscore and what \<open>str.isalnum\<close> accepts.
\<close>

definition is_space :: "char \<Rightarrow> bool" where
  "is_space c = (of_char c \<in> set [9, 10, 11, 12, 13, 28, 29, 30, 31, 32, 133, 160 :: nat])"

definition is_word :: "char \<Rightarrow> bool" where
  "is_word c =
     (let n = of_char c :: nat
      in (48 \<le> n \<and> n \<le> 57) \<or> (65 \<le> n \<and> n \<le> 90) \<or> n = 95 \<or> (97 \<le> n \<and> n \<le> 122) \<or>
         n \<in> set [170, 178, 179, 181, 185, 186, 188, 189, 190] \<or>
         (192 \<le> n \<and> n \<le> 255 \<and> n \<noteq> 215 \<and> n \<noteq> 247))"

fun lit :: "string \<Rightarrow> regex" where
  "lit [] = Eps"
| "lit (c # cs) = Seq (Lit c) (lit cs)"

definition plus :: "regex \<Rightarrow> regex" where
  "plus r = Seq r (Star r)"

definition opt :: "regex \<Rightarrow> regex" where
  "opt r = Alt r Eps"

fun seqs :: "regex list \<Rightarrow> regex" where
  "seqs [] = Eps"
| "seqs [r] = r"
| "seqs (r # rs) = Seq r (seqs rs)"

fun nullable :: "regex \<Rightarrow> bool" where
  "nullable Nul = False"
| "nullable Eps = True"
| "nullable (Lit c) = False"
| "nullable Space = False"
| "nullable WordChar = False"
| "nullable (Seq r s) = (nullable r \<and> nullable s)"
| "nullable (Alt r s) = (nullable r \<or> nullable s)"
| "nullable (Star r) = True"

fun seq :: "regex \<Rightarrow> regex \<Rightarrow> regex" where
  "seq Nul s = Nul"
| "seq Eps s = s"
| "seq r s = Seq r s"

fun alt :: "regex \<Rightarrow> regex \<Rightarrow> regex" where
  "alt Nul s = s"
| "alt r Nul = r"
| "alt r s = Alt r s"

fun deriv :: "char \<Rightarrow> regex \<Rightarrow> regex" where
  "deriv a Nul = Nul"
| "deriv a Eps = Nul"
| "deriv a (Lit c) = (if a = c then Eps else Nul)"
| "deriv a Space = (if is_space a then Eps else Nul)"
| "deriv a WordChar = (if is_word a then Eps else Nul)"
| "deriv a (Seq r s) = alt (seq (deriv a r) s) (if nullable r then deriv a s else Nul)"
| "deriv a (Alt r s) = alt (deriv a r) (deriv a s)"
| "deriv a (Star r) = seq (deriv a r) (Star r)"

text \<open>\<open>re.match\<close>: some prefix of the text matches; \<open>re.search\<close>: at some position.\<close>

fun re_match :: "regex \<Rightarrow> string \<Rightarrow> bool" where
  "re_match r [] = nullable r"
| "re_match r (c # cs) = (nullable r \<or> (r \<noteq> Nul \<and> re_match (deriv c r) cs))"

fun re_search :: "regex \<Rightarrow> string \<Rightarrow> bool" where
  "re_search r [] = nullable r"
| "re_search r (c # cs) = (re_match r (c # cs) \<or> re_search r cs)"

section \<open>agent\_router.py: AgentRouter\<close>

definition tenancy_keywords :: "string list" where
  "tenancy_keywords =
    [''landlord'', ''tenant'', ''rent'', ''deposit'', ''evict'', ''eviction'', ''lease'',
     ''notice'', ''rights'', ''law'', ''legal'', ''contract'', ''agreement'', ''rental'',
     ''tenancy'', ''move out'', ''move in'', ''security deposit'', ''rent increase'',
     ''repair responsibility'', ''maintenance'', ''utilities'', ''subletting'',
     ''termination'', ''breach'', ''violation'', ''dispute'', ''court'']"

definition issue_keywords :: "string list" where
  "issue_keywords =
    [''damage'', ''broken'', ''crack'', ''leak'', ''leaking'', ''mold'', ''mould'',
     ''repair'', ''fix'', ''problem'', ''issue'', ''maintenance'', ''water damage'',
     ''electrical'', ''plumbing'', ''heating'', ''cooling'', ''hvac'', ''paint'',
     ''ceiling'', ''wall'', ''floor'', ''window'', ''door'', ''fixture'', ''stain'',
     ''smell'', ''odor'', ''noise'', ''insulation'', ''ventilation'']"

definition tenancy_patterns :: "regex list" where
  "tenancy_patterns =
    [seqs [lit ''can'', plus Space, opt (seqs [lit ''my'', plus Space]), lit ''landlord''],
     seqs [lit ''tenant'', plus Space, lit ''right'', opt (Lit CHR ''s'')],
     seqs [lit ''rent'', plus Space, lit ''increase''],
     seqs [lit ''security'', plus Space, lit ''deposit''],
     seqs [lit ''evict'', opt (lit ''ion'')],
     seqs [lit ''lease'', plus Space, lit ''agreement''],
     seqs [lit ''notice'', plus Space, lit ''period''],
     seqs [lit ''move'', plus Space, lit ''out''],
     seqs [lit ''terminate'', plus Space, lit ''lease'']]"

definition issue_patterns :: "regex list" where
  "issue_patterns =
    [seqs [lit ''what'', opt (Lit (CHR 0x27)), lit ''s'', plus Space, lit ''wrong'', plus Space, lit ''with''],
     seqs [lit ''fix'', plus Space, lit ''this''],
     seqs [lit ''repair'', plus Space, lit ''needed''],
     seqs [lit ''damage'', plus Space, lit ''to''],
     seqs [lit ''problem'', plus Space, lit ''with''],
     seqs [lit ''issue'', plus Space, lit ''with''],
     seqs [lit ''broken'', plus Space, plus WordChar],
     seqs [lit ''leak'', opt (lit ''ing'')],
     seqs [lit ''crack'', plus Space, lit ''in'']]"

text \<open>
  The loop \<open>for pattern in patterns: if re.search(pattern, text_lower): score += 2\<close>,
  from the score the keywords gave.
\<close>

definition add_pattern_matches :: "regex list \<Rightarrow> string \<Rightarrow> int \<Rightarrow> int" where
  "add_pattern_matches patterns text_lower score =
     fold (\<lambda>pattern score. if re_search pattern text_lower then score + 2 else score) patterns score"

definition tenancy_score :: "string \<Rightarrow> int" where
  "tenancy_score text =
     (let text_lower = lower text;
          tenancy_score = count_keywords tenancy_keywords text_lower
      in add_pattern_matches tenancy_patterns text_lower tenancy_score)"

definition issue_score :: "string \<Rightarrow> int" where
  "issue_score text =
     (let text_lower = lower text;
          issue_score = count_keywords issue_keywords text_lower
      in add_pattern_matches issue_patterns text_lower issue_score)"

definition agent1 :: pyval where "agent1 = Str ''agent1''"
definition agent2 :: pyval where "agent2 = Str ''agent2''"
definition router :: pyval where "router = Str ''router''"

text \<open>
  \<open>context['last_agent']\<close> raises KeyError on a dictionary without the key; the source
  reads it only behind \<open>context and 'last_agent' in context\<close>.
\<close>

definition dict_getitem :: "py_dict \<Rightarrow> string \<Rightarrow> py_error + pyval" where
  "dict_getitem d k = (case map_of d k of None \<Rightarrow> Inl KeyError | Some v \<Rightarrow> Inr v)"

definition dict_contains :: "string \<Rightarrow> py_dict \<Rightarrow> bool" where
  "dict_contains k d = (map_of d k \<noteq> None)"

definition route_request :: "string \<Rightarrow> bool \<Rightarrow> py_dict option \<Rightarrow> py_error + pyval" where
  "route_request text has_image context =
     (if has_image then Inr agent1
      else let tenancy_score = tenancy_score text;
               issue_score = issue_score text
      in if tenancy_score > issue_score \<and> tenancy_score > 0 then Inr agent2
         else if issue_score > tenancy_score \<and> issue_score > 0 then Inr agent1
         else if issue_score = tenancy_score \<and> issue_score > 0 then
           (case context of
              None \<Rightarrow> Inr router
            | Some d \<Rightarrow>
                if d \<noteq> [] \<and> dict_contains ''last_agent'' d then dict_getitem d ''last_agent''
                else Inr router)
         else Inr router)"

section \<open>tenancy\_faq\_agent.py: TenancyFAQAgent\<close>

text \<open>
  A knowledge base maps a topic to its entry; of an entry the functions below read the
  \<open>'keywords'\<close> list only, so a table is the topics in the dictionary's order, each
  with its keywords.
\<close>

type_synonym topic_table = "(string \<times> string list) list"

definition legal_database :: topic_table where
  "legal_database =
    [(''eviction'', [''evict'', ''eviction'', ''kick out'', ''remove'', ''terminate lease'']),
     (''rent_increase'', [''rent increase'', ''raise rent'', ''rent hike'', ''increase rent'']),
     (''security_deposit'', [''deposit'', ''security deposit'', ''last month'', ''damage deposit'']),
     (''repairs_maintenance'',
        [''repair'', ''maintenance'', ''fix'', ''broken'', ''landlord responsibility'']),
     (''lease_termination'',
        [''move out'', ''terminate lease'', ''break lease'', ''early termination'']),
     (''tenant_rights'', [''tenant rights'', ''rights'', ''what can landlord do'', ''illegal''])]"

text \<open>The keys of \<open>location_specific_notes\<close>.\<close>

definition location_specific_notes :: "string list" where
  "location_specific_notes = [''california'', ''new_york'', ''texas'', ''florida'']"

text \<open>
  \<open>max(d, key=d.get)\<close> walks the keys in insertion order and keeps the first one whose
  value is the greatest: a later key replaces the best one only when its value is
  strictly greater. On an empty dictionary \<open>max\<close> raises ValueError.
\<close>

definition dict_get_score :: "(string \<times> int) list \<Rightarrow> string \<Rightarrow> int" where
  "dict_get_score d k = (case map_of d k of Some v \<Rightarrow> v | None \<Rightarrow> 0)"

fun py_max_key :: "('a \<Rightarrow> int) \<Rightarrow> 'a list \<Rightarrow> py_error + 'a" where
  "py_max_key key [] = Inl ValueError"
| "py_max_key key (x # xs) =
     Inr (fold (\<lambda>item best. if key item > key best then item else best) xs x)"

definition identify_topic :: "topic_table \<Rightarrow> string \<Rightarrow> py_error + string option" where
  "identify_topic database text =
     (let text_lower = lower text;
          topic_scores =
            fold (\<lambda>(topic, keywords) topic_scores.
                    let score = count_keywords keywords text_lower
                    in if score > 0 then AList.update topic score topic_scores
                       else topic_scores)
                 database []
      in if topic_scores \<noteq> [] then
           (case py_max_key (dict_get_score topic_scores) (map fst topic_scores) of
              Inl e \<Rightarrow> Inl e
            | Inr topic \<Rightarrow> Inr (Some topic))
         else Inr None)"

definition tenancy_calculate_confidence ::
  "topic_table \<Rightarrow> string list \<Rightarrow> string \<Rightarrow> string \<Rightarrow> string option \<Rightarrow> py_error + real" where
  "tenancy_calculate_confidence database locations text topic location =
     (case map_of database topic of
        None \<Rightarrow> Inl KeyError
      | Some keywords \<Rightarrow>
          let base_confidence = 0.8;
              keyword_matches =
                sum_list (map (\<lambda>keyword. 1)
                  (filter (\<lambda>keyword. str_in (lower keyword) (lower text)) keywords)) :: int;
              base_confidence =
                (if keyword_matches > 2 then base_confidence + 0.1
                 else if keyword_matches = 1 then base_confidence - 0.1
                 else base_confidence);
              base_confidence =
                (case location of
                   None \<Rightarrow> base_confidence - 0.05
                 | Some l \<Rightarrow>
                     if l \<noteq> [] then
                       (if list_ex (\<lambda>loc. str_in loc (lower l)) locations
                        then base_confidence + 0.05 else base_confidence)
                     else base_confidence - 0.05)
          in Inr (min 0.95 (max 0.6 base_confidence)))"

text \<open>
  \<open>process_request\<close> of the tenancy agent: the confidence it returns with its answer.
  \<open>if topic:\<close> takes the general-guidance branch on \<open>None\<close> and on the empty string.
\<close>

definition tenancy_process_request ::
  "topic_table \<Rightarrow> string list \<Rightarrow> string \<Rightarrow> string option \<Rightarrow> py_error + real" where
  "tenancy_process_request database locations text location =
     (case identify_topic database text of
        Inl e \<Rightarrow> Inl e
      | Inr None \<Rightarrow> Inr 0.6
      | Inr (Some topic) \<Rightarrow>
          if topic \<noteq> [] then tenancy_calculate_confidence database locations text topic location
          else Inr 0.6)"

section \<open>issue\_detection\_agent.py: IssueDetectionAgent\<close>

definition issue_database :: topic_table where
  "issue_database =
    [(''water_damage'', [''water'', ''leak'', ''stain'', ''wet'', ''damp'', ''moisture'']),
     (''structural_damage'', [''crack'', ''hole'', ''foundation'', ''wall'', ''ceiling'']),
     (''mold_growth'', [''mold'', ''mould'', ''fungus'', ''black spots'', ''green'']),
     (''electrical_issues'', [''electrical'', ''outlet'', ''switch'', ''wiring'', ''light'']),
     (''plumbing_issues'', [''pipe'', ''drain'', ''toilet'', ''faucet'', ''sink'']),
     (''cosmetic_damage'', [''paint'', ''scratch'', ''dent'', ''scuff'', ''wear''])]"

definition severe_indicators :: "string list" where
  "severe_indicators =
     [''extensive'', ''large'', ''major'', ''severe'', ''bad'', ''terrible'', ''everywhere'']"

definition moderate_indicators :: "string list" where
  "moderate_indicators = [''noticeable'', ''visible'', ''concerning'', ''growing'', ''spreading'']"

definition determine_severity :: "string \<Rightarrow> string \<Rightarrow> string" where
  "determine_severity description issue_type =
     (if list_ex (\<lambda>indicator. str_in indicator description) severe_indicators then ''severe''
      else if list_ex (\<lambda>indicator. str_in indicator description) moderate_indicators
        then ''moderate''
      else ''minor'')"

text \<open>
  \<open>xs.sort(key=f, reverse=True)\<close>: a stable sort into descending order, which CPython
  runs as a stable ascending sort between two reversals.
\<close>

definition py_sort_reverse :: "('a \<Rightarrow> 'k::linorder) \<Rightarrow> 'a list \<Rightarrow> 'a list" where
  "py_sort_reverse key xs = rev (sort_key key (rev xs))"

record detected_issue =
  dtype :: string
  confidence :: real
  dseverity :: string
  keywords_matched :: int

definition detection_confidence :: "int \<Rightarrow> real" where
  "detection_confidence keyword_matches = min 0.95 (0.6 + (of_int keyword_matches * 0.1))"

definition simulate_image_analysis :: "topic_table \<Rightarrow> string \<Rightarrow> detected_issue list" where
  "simulate_image_analysis database description =
     (let description_lower = lower description;
          detected_issues =
            fold (\<lambda>(issue_type, keywords) detected_issues.
                    let keyword_matches = count_keywords keywords description_lower
                    in if keyword_matches > 0 then
                         detected_issues @
                           [\<lparr>dtype = issue_type,
                             confidence = detection_confidence keyword_matches,
                             dseverity = determine_severity description_lower issue_type,
                             keywords_matched = keyword_matches\<rparr>]
                       else detected_issues)
                 database []
      in take 3 (py_sort_reverse confidence detected_issues))"

definition issue_calculate_confidence :: "detected_issue list \<Rightarrow> int \<Rightarrow> real" where
  "issue_calculate_confidence detected_issues description_length =
     (case detected_issues of
        [] \<Rightarrow> 0.3
      | primary # others \<Rightarrow>
          let base_confidence = confidence primary;
              base_confidence =
                (if description_length > 50 then base_confidence + 0.1
                 else if description_length < 10 then base_confidence - 0.1
                 else base_confidence);
              base_confidence =
                (if int (length detected_issues) > 1 then base_confidence + 0.05
                 else base_confidence)
          in min 0.95 (max 0.5 base_confidence))"

text \<open>
  \<open>_analyze_image_with_context\<close>: the confidence returned with the report. The image
  bytes are not read by the simulated analysis.
\<close>

definition analyze_image_with_context :: "topic_table \<Rightarrow> string \<Rightarrow> real" where
  "analyze_image_with_context database description =
     (let detected_issues = simulate_image_analysis database description
      in if detected_issues = [] then 0.6
         else issue_calculate_confidence detected_issues (int (length description)))"

record possible_issue =
  ptype :: string
  matches :: int
  pseverity :: string

text \<open>
  \<open>_analyze_text_description\<close> hands the sorted \<open>possible_issues\<close> to the report
  template, which reports on \<open>possible_issues[0]\<close>, or falls back to general guidance.
  The templates build text only; the model keeps what they are given.
\<close>

datatype text_analysis = TextAnalysis "possible_issue list" | GeneralGuidance

definition analyze_text_description :: "topic_table \<Rightarrow> string \<Rightarrow> text_analysis \<times> real" where
  "analyze_text_description database text =
     (let text_lower = lower text;
          possible_issues =
            fold (\<lambda>(issue_type, keywords) possible_issues.
                    let keyword_matches = count_keywords keywords text_lower
                    in if keyword_matches > 0 then
                         possible_issues @
                           [\<lparr>ptype = issue_type,
                             matches = keyword_matches,
                             pseverity = determine_severity text_lower issue_type\<rparr>]
                       else possible_issues)
                 database []
      in if possible_issues \<noteq> [] then
           (TextAnalysis (py_sort_reverse matches possible_issues), 0.7)
         else (GeneralGuidance, 0.5))"

section \<open>What the properties speak of\<close>

text \<open>
  A keyword occurs in a text when the text is some prefix, the keyword, some suffix;
  it occurs case-insensitively when this holds after lowering both.
\<close>

definition occurs_in :: "string \<Rightarrow> string \<Rightarrow> bool" where
  "occurs_in k t = (\<exists>ps ss. t = ps @ k @ ss)"

definition ci_occurs :: "string \<Rightarrow> string \<Rightarrow> bool" where
  "ci_occurs k t = occurs_in (lower k) (lower t)"

text \<open>The language of a pattern, and a text holding a match of it somewhere.\<close>

definition conc :: "string set \<Rightarrow> string set \<Rightarrow> string set" where
  "conc A B = {u @ v | u v. u \<in> A \<and> v \<in> B}"

inductive_set star :: "string set \<Rightarrow> string set" for A :: "string set" where
  star_nil: "[] \<in> star A"
| star_app: "u \<in> A \<Longrightarrow> v \<in> star A \<Longrightarrow> u @ v \<in> star A"

fun lang :: "regex \<Rightarrow> string set" where
  "lang Nul = {}"
| "lang Eps = {[]}"
| "lang (Lit c) = {[c]}"
| "lang Space = {[c] | c. is_space c}"
| "lang WordChar = {[c] | c. is_word c}"
| "lang (Seq r s) = conc (lang r) (lang s)"
| "lang (Alt r s) = lang r \<union> lang s"
| "lang (Star r) = star (lang r)"

definition finds_match :: "regex \<Rightarrow> string \<Rightarrow> bool" where
  "finds_match r t = (\<exists>ps w ss. t = ps @ w @ ss \<and> w \<in> lang r)"

text \<open>The score of a topic's keywords on a text, as every specialist computes it.\<close>

definition topic_score :: "string \<Rightarrow> string \<times> string list \<Rightarrow> int" where
  "topic_score text entry = count_keywords (snd entry) (lower text)"

text \<open>The agent recorded in the context, when the context is there and holds one.\<close>

definition last_agent :: "py_dict option \<Rightarrow> pyval option" where
  "last_agent context = (case context of None \<Rightarrow> None | Some d \<Rightarrow> map_of d ''last_agent'')"

text \<open>
  The dictionary \<open>topic_scores\<close> that \<open>_identify_topic\<close> builds, and the entry of a
  table that is the first one in the table's order to reach the greatest score, this
  score being above zero.
\<close>

definition scored :: "string \<Rightarrow> topic_table \<Rightarrow> (string \<times> int) list" where
  "scored t db = map (\<lambda>e. (fst e, count_keywords (snd e) t)) (filter (\<lambda>e. 0 < count_keywords (snd e) t) db)"

definition first_greatest :: "string \<Rightarrow> topic_table \<Rightarrow> string \<times> string list \<Rightarrow> bool" where
  "first_greatest text db entry =
     (\<exists>pre post. db = pre @ entry # post \<and> 0 < topic_score text entry \<and>
        (\<forall>e\<in>set pre. topic_score text e < topic_score text entry) \<and>
        (\<forall>e\<in>set post. topic_score text e \<le> topic_score text entry))"

text \<open>
  The number of keywords of a topic that the tenancy confidence counts on a text
  (\<open>keyword.lower() in text.lower()\<close>), and the confidence before it is clamped.
\<close>

definition tenancy_keyword_matches :: "string list \<Rightarrow> string \<Rightarrow> int" where
  "tenancy_keyword_matches kws text = (\<Sum>k\<leftarrow>kws. if ci_occurs k text then 1 else 0)"

definition tenancy_adjusted :: "string list \<Rightarrow> int \<Rightarrow> string option \<Rightarrow> real" where
  "tenancy_adjusted locations m location =
     (if m > 2 then 0.8 + 0.1 else if m = 1 then 0.8 - 0.1 else 0.8) +
     (case location of
        None \<Rightarrow> - 0.05
      | Some l \<Rightarrow> if l \<noteq> [] then (if list_ex (\<lambda>loc. str_in loc (lower l)) locations then 0.05 else 0)
                  else - 0.05)"

text \<open>The keywords of the topic \<open>'eviction'\<close> in \<open>legal_database\<close>.\<close>

definition eviction_keywords :: "string list" where
  "eviction_keywords = [''evict'', ''eviction'', ''kick out'', ''remove'', ''terminate lease'']"

text \<open>
  The order of the decisions, from tenancy FAQ over clarify (and any other value the
  context may hold) to issue detection: a decision moves toward issue detection when
  its rank grows.
\<close>

definition decision_rank :: "pyval \<Rightarrow> nat" where
  "decision_rank agent = (if agent = agent2 then 0 else if agent = agent1 then 2 else 1)"

text \<open>Two texts beyond ASCII: a no-break space between words, and a Latin-1 letter.\<close>

definition no_break_space_text :: string where
  "no_break_space_text = ''rent'' @ [CHR 0xA0] @ ''increase fix door''"

definition latin_letter_text :: string where
  "latin_letter_text = ''rent lease broken '' @ [CHR 0xE9]"

section \<open>Substring test and pattern search\<close>

lemma startswith_iff: "startswith t k \<longleftrightarrow> (\<exists>ss. t = k @ ss)"
  by (induction t k rule: startswith.induct) auto

lemma str_in_iff: "str_in k t \<longleftrightarrow> occurs_in k t"
proof (induction t)
  case Nil
  show ?case by (auto simp: occurs_in_def)
next
  case (Cons c cs)
  have "occurs_in k (c # cs) \<longleftrightarrow> (\<exists>ss. c # cs = k @ ss) \<or> occurs_in k cs"
    unfolding occurs_in_def
  proof
    assume "\<exists>ps ss. c # cs = ps @ k @ ss"
    then obtain ps ss where e: "c # cs = ps @ k @ ss" by blast
    show "(\<exists>ss. c # cs = k @ ss) \<or> (\<exists>ps ss. cs = ps @ k @ ss)"
    proof (cases ps)
      case Nil
      with e show ?thesis by auto
    next
      case (Cons p ps')
      with e have "cs = ps' @ k @ ss" by simp
      then show ?thesis by blast
    qed
  next
    assume "(\<exists>ss. c # cs = k @ ss) \<or> (\<exists>ps ss. cs = ps @ k @ ss)"
    then show "\<exists>ps ss. c # cs = ps @ k @ ss"
    proof
      assume "\<exists>ss. c # cs = k @ ss"
      then obtain ss where "c # cs = [] @ k @ ss" by auto
      then show ?thesis by blast
    next
      assume "\<exists>ps ss. cs = ps @ k @ ss"
      then obtain ps ss where "c # cs = (c # ps) @ k @ ss" by auto
      then show ?thesis by blast
    qed
  qed
  with Cons show ?case by (simp add: startswith_iff)
qed

lemma lang_seq: "lang (seq r s) = conc (lang r) (lang s)"
  by (cases r) (auto simp: conc_def)

lemma lang_alt: "lang (alt r s) = lang r \<union> lang s"
  by (induction r s rule: alt.induct) auto

lemma nullable_iff: "nullable r \<longleftrightarrow> [] \<in> lang r"
  by (induction r) (auto simp: conc_def intro: star_nil)

lemma star_cons_iff:
  "a # w \<in> star A \<longleftrightarrow> (\<exists>u v. w = u @ v \<and> a # u \<in> A \<and> v \<in> star A)"
proof
  assume "a # w \<in> star A"
  then show "\<exists>u v. w = u @ v \<and> a # u \<in> A \<and> v \<in> star A"
  proof (induction "a # w" rule: star.induct)
    case (star_app u v)
    show ?case
    proof (cases u)
      case Nil
      with star_app show ?thesis by simp
    next
      case (Cons b u')
      with star_app.hyps(4) have "b = a" "w = u' @ v" by auto
      with star_app.hyps(1,2) Cons show ?thesis by blast
    qed
  qed
next
  assume "\<exists>u v. w = u @ v \<and> a # u \<in> A \<and> v \<in> star A"
  then obtain u v where "w = u @ v" "a # u \<in> A" "v \<in> star A" by blast
  then have "(a # u) @ v \<in> star A" by (intro star_app)
  with \<open>w = u @ v\<close> show "a # w \<in> star A" by simp
qed

lemma conc_cons_iff:
  "a # w \<in> conc A B \<longleftrightarrow>
     (\<exists>u v. w = u @ v \<and> a # u \<in> A \<and> v \<in> B) \<or> ([] \<in> A \<and> a # w \<in> B)"
  by (auto simp: conc_def Cons_eq_append_conv append_eq_Cons_conv)

lemma lang_deriv: "lang (deriv a r) = {w. a # w \<in> lang r}"
proof (induction r)
  case (Seq r s)
  then show ?case
    by (auto simp: lang_alt lang_seq conc_cons_iff nullable_iff) (auto simp: conc_def)
next
  case (Star r)
  then show ?case
    by (auto simp: lang_seq star_cons_iff) (auto simp: conc_def)
qed (auto simp: lang_alt)

lemma re_match_iff: "re_match r t \<longleftrightarrow> (\<exists>w ss. t = w @ ss \<and> w \<in> lang r)"
proof (induction t arbitrary: r)
  case Nil
  show ?case by (simp add: nullable_iff)
next
  case (Cons c cs)
  have "(\<exists>w ss. c # cs = w @ ss \<and> w \<in> lang r) \<longleftrightarrow>
        [] \<in> lang r \<or> (\<exists>w ss. cs = w @ ss \<and> c # w \<in> lang r)"
    by (auto simp: Cons_eq_append_conv)
  moreover have "r = Nul \<Longrightarrow> \<not> (\<exists>w ss. cs = w @ ss \<and> c # w \<in> lang r)" by simp
  ultimately show ?case
    using Cons.IH [of "deriv c r"] by (auto simp: nullable_iff lang_deriv)
qed

lemma re_search_iff: "re_search r t \<longleftrightarrow> finds_match r t"
proof (induction t)
  case Nil
  show ?case by (simp add: nullable_iff finds_match_def)
next
  case (Cons c cs)
  have "finds_match r (c # cs) \<longleftrightarrow> (\<exists>w ss. c # cs = w @ ss \<and> w \<in> lang r) \<or> finds_match r cs"
    unfolding finds_match_def
    apply (rule iffI)
     apply (elim exE conjE)
    subgoal for ps w ss by (cases ps) auto
    apply (erule disjE)
     apply (metis append_Nil)
    apply (elim exE conjE)
    subgoal for ps w ss by (rule exI [of _ "c # ps"]) auto
    done
  with Cons show ?case by (simp add: re_match_iff)
qed

section \<open>The two scores\<close>

lemma count_keywords_eq:
  "count_keywords kws t = (\<Sum>k\<leftarrow>kws. if occurs_in k t then 1 else 0)"
  unfolding count_keywords_def by (induction kws) (simp_all add: str_in_iff)

lemma add_pattern_matches_eq:
  "add_pattern_matches patterns t score =
     score + (\<Sum>p\<leftarrow>patterns. if finds_match p t then 2 else 0)"
  unfolding add_pattern_matches_def
  by (induction patterns arbitrary: score) (simp_all add: re_search_iff)

lemma tenancy_keywords_lower_all: "list_all (\<lambda>k. lower k = k) tenancy_keywords"
  by code_simp

lemma tenancy_keywords_lower: "k \<in> set tenancy_keywords \<Longrightarrow> lower k = k"
  using tenancy_keywords_lower_all by (simp add: list_all_iff)

lemma issue_keywords_lower_all: "list_all (\<lambda>k. lower k = k) issue_keywords"
  by code_simp

lemma issue_keywords_lower: "k \<in> set issue_keywords \<Longrightarrow> lower k = k"
  using issue_keywords_lower_all by (simp add: list_all_iff)

lemma sum_list_cong_set:
  "(\<And>x. x \<in> set xs \<Longrightarrow> f x = g x) \<Longrightarrow> (\<Sum>x\<leftarrow>xs. f x) = (\<Sum>x\<leftarrow>xs. (g x :: int))"
  by (induction xs) simp_all

lemma tenancy_score_eq:
  "tenancy_score text =
     (\<Sum>k\<leftarrow>tenancy_keywords. if ci_occurs k text then 1 else 0) +
     (\<Sum>p\<leftarrow>tenancy_patterns. if finds_match p (lower text) then 2 else 0)"
proof -
  have "(\<Sum>k\<leftarrow>tenancy_keywords. if occurs_in k (lower text) then 1 else 0) =
        (\<Sum>k\<leftarrow>tenancy_keywords. if ci_occurs k text then (1::int) else 0)"
    by (rule sum_list_cong_set) (simp add: ci_occurs_def tenancy_keywords_lower)
  then show ?thesis
    by (simp add: tenancy_score_def count_keywords_eq add_pattern_matches_eq)
qed

lemma issue_score_eq:
  "issue_score text =
     (\<Sum>k\<leftarrow>issue_keywords. if ci_occurs k text then 1 else 0) +
     (\<Sum>p\<leftarrow>issue_patterns. if finds_match p (lower text) then 2 else 0)"
proof -
  have "(\<Sum>k\<leftarrow>issue_keywords. if occurs_in k (lower text) then 1 else 0) =
        (\<Sum>k\<leftarrow>issue_keywords. if ci_occurs k text then (1::int) else 0)"
    by (rule sum_list_cong_set) (simp add: ci_occurs_def issue_keywords_lower)
  then show ?thesis
    by (simp add: issue_score_def count_keywords_eq add_pattern_matches_eq)
qed

lemma sum_list_nonneg_if: "0 \<le> (\<Sum>x\<leftarrow>xs. if P x then (c::int) else 0)" if "0 \<le> c"
  using that by (induction xs) simp_all

lemma tenancy_score_nonneg: "0 \<le> tenancy_score text"
  unfolding tenancy_score_eq by (intro add_nonneg_nonneg sum_list_nonneg_if) simp_all

lemma issue_score_nonneg: "0 \<le> issue_score text"
  unfolding issue_score_eq by (intro add_nonneg_nonneg sum_list_nonneg_if) simp_all

lemma scores_rent: "tenancy_score ''rent'' = 1 \<and> issue_score ''rent'' = 0" by code_simp
lemma scores_fix: "tenancy_score ''fix'' = 0 \<and> issue_score ''fix'' = 1" by code_simp
lemma scores_maintenance: "tenancy_score ''maintenance'' = 1 \<and> issue_score ''maintenance'' = 1"
  by code_simp
lemma scores_empty: "tenancy_score '''' = 0 \<and> issue_score '''' = 0" by code_simp

lemma scores_nbsp:
  "tenancy_score no_break_space_text = 3 \<and> issue_score no_break_space_text = 2"
  by code_simp

lemma scores_latin_letter:
  "tenancy_score latin_letter_text = 2 \<and> issue_score latin_letter_text = 3"
  by code_simp

lemma scores_upper:
  "tenancy_score ''RENT Increase'' = 4 \<and> issue_score ''RENT Increase'' = 0"
  by code_simp











lemma route_request_tie:
  "route_request text False context =
     (if tenancy_score text > issue_score text \<and> tenancy_score text > 0 then Inr agent2
      else if issue_score text > tenancy_score text \<and> issue_score text > 0 then Inr agent1
      else if issue_score text = tenancy_score text \<and> issue_score text > 0
        then Inr (case last_agent context of Some a \<Rightarrow> a | None \<Rightarrow> router)
      else Inr router)"
  by (cases "context")
     (auto simp: route_request_def Let_def last_agent_def dict_contains_def dict_getitem_def
           split: option.splits)

section \<open>The router\<close>

text \<open>
  C2. With an image, \<open>route_request\<close> returns \<open>'agent1'\<close> (issue detection) whatever
  the text and the context are, also where the tenancy score of the text is the greater.
\<close>

theorem image_forces_issue_detection:
  "route_request text True context = Inr agent1"
  by (simp add: route_request_def)

text \<open>
  C1. Without an image the result follows the two scores, each the number of keywords
  of its list that occur in the lowered text plus 2 for every pattern of its list that
  finds a match: tenancy above issue gives \<open>'agent2'\<close> (tenancy FAQ), issue above
  tenancy gives \<open>'agent1'\<close> (issue detection), equal scores above zero give the
  context's \<open>last_agent\<close> when the context holds one and \<open>'router'\<close> (clarify)
  otherwise, and two zero scores give \<open>'router'\<close>. The scores are never negative, so
  the four cases leave nothing out.
\<close>

theorem decision_rule_without_image:
  "0 \<le> issue_score text \<and> 0 \<le> tenancy_score text \<and>
   issue_score text =
     (\<Sum>k\<leftarrow>issue_keywords. if ci_occurs k text then 1 else 0) +
     (\<Sum>p\<leftarrow>issue_patterns. if finds_match p (lower text) then 2 else 0) \<and>
   tenancy_score text =
     (\<Sum>k\<leftarrow>tenancy_keywords. if ci_occurs k text then 1 else 0) +
     (\<Sum>p\<leftarrow>tenancy_patterns. if finds_match p (lower text) then 2 else 0) \<and>
   (tenancy_score text > issue_score text \<and> tenancy_score text > 0 \<longrightarrow>
      route_request text False context = Inr agent2) \<and>
   (issue_score text > tenancy_score text \<and> issue_score text > 0 \<longrightarrow>
      route_request text False context = Inr agent1) \<and>
   (issue_score text = tenancy_score text \<and> issue_score text > 0 \<longrightarrow>
      route_request text False context =
        Inr (case last_agent context of Some a \<Rightarrow> a | None \<Rightarrow> router)) \<and>
   (issue_score text = 0 \<and> tenancy_score text = 0 \<longrightarrow>
      route_request text False context = Inr router)"
  using issue_score_nonneg [of "text"] tenancy_score_nonneg [of "text"]
    issue_score_eq [of "text"] tenancy_score_eq [of "text"]
  by (simp add: route_request_tie)

theorem decision_rule_without_image_witness:
  "(tenancy_score ''rent'' > issue_score ''rent'' \<and> tenancy_score ''rent'' > 0 \<and>
      route_request ''rent'' False None = Inr agent2) \<and>
   (issue_score ''fix'' > tenancy_score ''fix'' \<and> issue_score ''fix'' > 0 \<and>
      route_request ''fix'' False None = Inr agent1) \<and>
   (issue_score ''maintenance'' = tenancy_score ''maintenance'' \<and>
      issue_score ''maintenance'' > 0 \<and>
      route_request ''maintenance'' False (Some [(''last_agent'', agent2)]) = Inr agent2 \<and>
      route_request ''maintenance'' False None = Inr router) \<and>
   (issue_score '''' = 0 \<and> tenancy_score '''' = 0 \<and>
      route_request '''' False None = Inr router) \<and>
   (tenancy_score ''RENT Increase'' = 4 \<and> issue_score ''RENT Increase'' = 0 \<and>
      route_request ''RENT Increase'' False None = Inr agent2) \<and>
   (tenancy_score no_break_space_text = 3 \<and>
      issue_score no_break_space_text = 2 \<and>
      route_request no_break_space_text False None = Inr agent2) \<and>
   (tenancy_score latin_letter_text = 2 \<and>
      issue_score latin_letter_text = 3 \<and>
      route_request latin_letter_text False None = Inr agent1)"
  using decision_rule_without_image [of "''rent''" None]
    decision_rule_without_image [of "''fix''" None]
    decision_rule_without_image [of "''maintenance''" "Some [(''last_agent'', agent2)]"]
    decision_rule_without_image [of "''maintenance''" None]
    decision_rule_without_image [of "''''" None]
    decision_rule_without_image [of "''RENT Increase''" None]
    decision_rule_without_image [of no_break_space_text None]
    decision_rule_without_image [of latin_letter_text None]
  by (simp add: scores_rent scores_fix scores_maintenance scores_empty last_agent_def
        scores_upper scores_nbsp scores_latin_letter)




text \<open>
  C9. \<open>route_request\<close> returns an agent on every text, image flag and context; it
  never raises. With no context, or a context without the \<open>last_agent\<close> key (the
  empty dictionary too), equal scores give \<open>'router'\<close>, and so do two zero scores.
\<close>

theorem route_request_never_raises:
  "(\<exists>agent. route_request text has_image context = Inr agent) \<and>
   (context = None \<or> (\<exists>d. context = Some d \<and> ''last_agent'' \<notin> fst ` set d) \<longrightarrow>
      issue_score text = tenancy_score text \<longrightarrow>
      route_request text False context = Inr router) \<and>
   (issue_score text = 0 \<and> tenancy_score text = 0 \<longrightarrow>
      route_request text False context = Inr router)"
proof -
  have 1: "\<exists>agent. route_request text has_image context = Inr agent"
  proof (cases has_image)
    case True
    then show ?thesis by (simp add: route_request_def)
  next
    case False
    then have "has_image = False" by simp
    then show ?thesis by (simp only: route_request_tie) simp
  qed
  have 2: "last_agent context = None"
    if "context = None \<or> (\<exists>d. context = Some d \<and> ''last_agent'' \<notin> fst ` set d)"
    using that by (auto simp: last_agent_def map_of_eq_None_iff)
  show ?thesis using 1 2 by (auto simp: route_request_tie)
qed

theorem route_request_never_raises_witness:
  "issue_score ''maintenance'' = tenancy_score ''maintenance'' \<and>
   ''last_agent'' \<notin> fst ` set [(''topics'', StrList [''rent''])] \<and>
   route_request ''maintenance'' False None = Inr router \<and>
   route_request ''maintenance'' False (Some []) = Inr router \<and>
   route_request ''maintenance'' False (Some [(''topics'', StrList [''rent''])]) = Inr router \<and>
   issue_score '''' = 0 \<and> tenancy_score '''' = 0 \<and> route_request '''' False None = Inr router"
  using route_request_never_raises [of "''maintenance''" False None]
    route_request_never_raises [of "''maintenance''" False "Some []"]
    route_request_never_raises [of "''maintenance''" False "Some [(''topics'', StrList [''rent''])]"]
    route_request_never_raises [of "''''" False None]
  by (simp add: scores_maintenance scores_empty)

section \<open>Topic identification\<close>

lemma count_keywords_nonneg: "0 \<le> count_keywords kws t"
  unfolding count_keywords_eq by (rule sum_list_nonneg_if) simp

lemma update_fresh: "k \<notin> fst ` set d \<Longrightarrow> AList.update k v d = d @ [(k, v)]"
  by (induction d) auto


lemma fold_topic_scores:
  "distinct (map fst db) \<Longrightarrow> fst ` set db \<inter> fst ` set acc = {} \<Longrightarrow>
   fold (\<lambda>(topic, kws) topic_scores.
           let score = count_keywords kws t
           in if score > 0 then AList.update topic score topic_scores else topic_scores)
        db acc = acc @ scored t db"
proof (induction db arbitrary: acc)
  case Nil
  show ?case by (simp add: scored_def)
next
  case (Cons e db)
  obtain topic kws where e: "e = (topic, kws)" by (cases e)
  show ?case
  proof (cases "0 < count_keywords kws t")
    case True
    have fresh: "topic \<notin> fst ` set acc" using Cons.prems(2) e by auto
    have "fst ` set db \<inter> fst ` set (acc @ [(topic, count_keywords kws t)]) = {}"
      using Cons.prems e by auto
    with Cons.IH [of "acc @ [(topic, count_keywords kws t)]"] Cons.prems(1) True e fresh
    show ?thesis by (simp add: update_fresh scored_def)
  next
    case False
    have "fst ` set db \<inter> fst ` set acc = {}" using Cons.prems(2) by auto
    with Cons.IH [of acc] Cons.prems(1) False e show ?thesis by (simp add: scored_def)
  qed
qed

lemma fold_keeps_first_greatest:
  fixes key :: "'a \<Rightarrow> int"
  defines "f \<equiv> \<lambda>item best. if key item > key best then item else best"
  shows "\<exists>pre post. x # xs = pre @ fold f xs x # post \<and>
     (\<forall>e\<in>set pre. key e < key (fold f xs x)) \<and>
     (\<forall>e\<in>set post. key e \<le> key (fold f xs x))"
proof (induction xs arbitrary: x)
  case Nil
  have "[x] = [] @ x # [] \<and> (\<forall>e\<in>set []. key e < key x) \<and> (\<forall>e\<in>set []. key e \<le> key x)"
    by simp
  then show ?case unfolding fold_simps by blast
next
  case (Cons y ys)
  show ?case
  proof (cases "key y > key x")
    case True
    define b where "b = fold f ys y"
    from Cons.IH [of y] obtain pre post where
      d: "y # ys = pre @ b # post"
      and l: "\<forall>e\<in>set pre. key e < key b"
      and r: "\<forall>e\<in>set post. key e \<le> key b" unfolding b_def by blast
    have "key y \<le> key b"
    proof (cases pre)
      case Nil
      with d have "b = y" by simp
      then show ?thesis by simp
    next
      case (Cons p ps)
      with d have "y \<in> set pre" by simp
      with l show ?thesis by fastforce
    qed
    with True have x: "key x < key b" by simp
    have fb: "fold f (y # ys) x = b" using True by (simp add: b_def f_def)
    from d have "x # y # ys = (x # pre) @ b # post" by simp
    moreover from l x have "\<forall>e\<in>set (x # pre). key e < key b" by simp
    ultimately show ?thesis using r unfolding fb by blast
  next
    case False
    define b where "b = fold f ys x"
    from Cons.IH [of x] obtain pre post where
      d: "x # ys = pre @ b # post"
      and l: "\<forall>e\<in>set pre. key e < key b"
      and r: "\<forall>e\<in>set post. key e \<le> key b" unfolding b_def by blast
    have fb: "fold f (y # ys) x = b" using False by (simp add: b_def f_def)
    show ?thesis
    proof (cases pre)
      case Nil
      with d have bx: "b = x" and post: "post = ys" by simp_all
      have "x # y # ys = [] @ b # (y # ys)" using bx by simp
      moreover have "\<forall>e\<in>set (y # ys). key e \<le> key b" using r False bx post by simp
      moreover have "\<forall>e\<in>set []. key e < key b" by simp
      ultimately show ?thesis unfolding fb by blast
    next
      case (Cons p ps)
      with d have p: "p = x" and ys: "ys = ps @ b # post" by simp_all
      from l Cons p have "key x < key b" by simp
      with False have "key y < key b" by simp
      with l Cons p have "\<forall>e\<in>set (x # y # ps). key e < key b" by simp
      moreover from ys have "x # y # ys = (x # y # ps) @ b # post" by simp
      ultimately show ?thesis using r unfolding fb by blast
    qed
  qed
qed

lemma py_max_key_first_greatest:
  fixes key :: "'a \<Rightarrow> int"
  assumes "xs \<noteq> []"
  shows "\<exists>best pre post. py_max_key key xs = Inr best \<and> xs = pre @ best # post \<and>
     (\<forall>e\<in>set pre. key e < key best) \<and> (\<forall>e\<in>set post. key e \<le> key best)"
proof -
  from assms obtain x xs' where xs: "xs = x # xs'" by (cases xs) auto
  from fold_keeps_first_greatest [of x xs' key] show ?thesis
    unfolding xs by simp
qed

lemma map_filter_split:
  "map g (filter P xs) = pre @ y # post \<Longrightarrow>
   \<exists>xpre x xpost. xs = xpre @ x # xpost \<and> P x \<and> g x = y \<and>
     map g (filter P xpre) = pre \<and> map g (filter P xpost) = post"
proof (induction xs arbitrary: pre)
  case Nil
  then show ?case by simp
next
  case (Cons a xs)
  show ?case
  proof (cases "P a")
    case False
    with Cons.prems have "map g (filter P xs) = pre @ y # post" by simp
    from Cons.IH [OF this] obtain xpre x xpost where
      "xs = xpre @ x # xpost" "P x" "g x = y"
      "map g (filter P xpre) = pre" "map g (filter P xpost) = post" by blast
    with False have "a # xs = (a # xpre) @ x # xpost \<and> P x \<and> g x = y \<and>
      map g (filter P (a # xpre)) = pre \<and> map g (filter P xpost) = post" by simp
    then show ?thesis by blast
  next
    case True
    show ?thesis
    proof (cases pre)
      case Nil
      with Cons.prems True have "a # xs = [] @ a # xs \<and> P a \<and> g a = y \<and>
        map g (filter P []) = pre \<and> map g (filter P xs) = post" by simp
      then show ?thesis by blast
    next
      case (Cons p ps)
      with Cons.prems True have p: "g a = p" and "map g (filter P xs) = ps @ y # post" by simp_all
      from Cons.IH [OF this(2)] obtain xpre x xpost where
        "xs = xpre @ x # xpost" "P x" "g x = y"
        "map g (filter P xpre) = ps" "map g (filter P xpost) = post" by blast
      with True p Cons have "a # xs = (a # xpre) @ x # xpost \<and> P x \<and> g x = y \<and>
        map g (filter P (a # xpre)) = pre \<and> map g (filter P xpost) = post" by simp
      then show ?thesis by blast
    qed
  qed
qed

lemma scored_keys_distinct: "distinct (map fst db) \<Longrightarrow> distinct (map fst (scored t db))"
proof -
  have "map fst (scored t db) = map fst (filter (\<lambda>e. 0 < count_keywords (snd e) t) db)"
    by (simp add: scored_def comp_def)
  then show "distinct (map fst db) \<Longrightarrow> distinct (map fst (scored t db))"
    by (simp add: distinct_map_filter)
qed

lemma topic_scores_eq:
  assumes "distinct (map fst db)"
  shows "fold (\<lambda>(topic, kws) topic_scores.
           let score = count_keywords kws t
           in if score > 0 then AList.update topic score topic_scores else topic_scores)
        db [] = scored t db"
  using fold_topic_scores [OF assms, of "[]" t] by simp

lemma identify_topic_scored:
  assumes "distinct (map fst db)"
  shows "identify_topic db text =
     (if scored (lower text) db \<noteq> [] then
        (case py_max_key (dict_get_score (scored (lower text) db)) (map fst (scored (lower text) db)) of
           Inl e \<Rightarrow> Inl e | Inr topic \<Rightarrow> Inr (Some topic))
      else Inr None)"
  using topic_scores_eq [OF assms, of "lower text"] by (simp add: identify_topic_def Let_def)

lemma scored_empty_iff: "scored t db = [] \<longleftrightarrow> (\<forall>e\<in>set db. count_keywords (snd e) t = 0)"
proof -
  have "\<not> 0 < count_keywords kws t \<longleftrightarrow> count_keywords kws t = 0" for kws
    using count_keywords_nonneg [of kws t] by auto
  then show ?thesis by (simp add: scored_def filter_empty_conv)
qed

lemma identify_topic_first_greatest:
  assumes dist: "distinct (map fst db)" and ne: "scored (lower text) db \<noteq> []"
  shows "\<exists>topic kws pre post. identify_topic db text = Inr (Some topic) \<and>
     db = pre @ (topic, kws) # post \<and> 0 < topic_score text (topic, kws) \<and>
     (\<forall>e\<in>set pre. topic_score text e < topic_score text (topic, kws)) \<and>
     (\<forall>e\<in>set post. topic_score text e \<le> topic_score text (topic, kws))"
proof -
  define t where "t = lower text"
  define S where "S = scored t db"
  define P where "P = (\<lambda>e :: string \<times> string list. 0 < count_keywords (snd e) t)"
  define g where "g = (\<lambda>e :: string \<times> string list. (fst e, count_keywords (snd e) t))"
  have S: "S = map g (filter P db)" by (simp add: S_def scored_def g_def P_def)
  have dS: "distinct (map fst S)" unfolding S_def by (rule scored_keys_distinct [OF dist])
  have key: "dict_get_score S (fst p) = snd p" if "p \<in> set S" for p
  proof -
    obtain k v where p: "p = (k, v)" by (cases p)
    with that dS have "map_of S k = Some v" by simp
    with p show ?thesis by (simp add: dict_get_score_def)
  qed
  from ne have "map fst S \<noteq> []" by (simp add: S_def t_def)
  from py_max_key_first_greatest [OF this, of "dict_get_score S"]
  obtain best kpre kpost where
    m: "py_max_key (dict_get_score S) (map fst S) = Inr best"
    and d: "map fst S = kpre @ best # kpost"
    and l: "\<forall>k\<in>set kpre. dict_get_score S k < dict_get_score S best"
    and r: "\<forall>k\<in>set kpost. dict_get_score S k \<le> dict_get_score S best" by blast
  have id: "identify_topic db text = Inr (Some best)"
    using ne m by (simp add: identify_topic_scored [OF dist] S_def t_def)
  from d have "map (fst \<circ> g) (filter P db) = kpre @ best # kpost" by (simp add: S)
  from map_filter_split [OF this] obtain pre x post where
    db: "db = pre @ x # post" and Px: "P x" and gx: "(fst \<circ> g) x = best"
    and pre: "map (fst \<circ> g) (filter P pre) = kpre"
    and post: "map (fst \<circ> g) (filter P post) = kpost" by blast
  obtain topic kws where x: "x = (topic, kws)" by (cases x)
  have best: "best = topic" using gx x by (simp add: g_def)
  have "g x \<in> set S" using db Px by (simp add: S)
  from key [OF this] have sb: "dict_get_score S best = count_keywords kws t"
    using x best by (simp add: g_def)
  have score: "dict_get_score S (fst e) = count_keywords (snd e) t" if "e \<in> set db" "P e" for e
  proof -
    from that have "g e \<in> set S" by (simp add: S)
    from key [OF this] show ?thesis by (simp add: g_def)
  qed
  have L: "count_keywords (snd e) t < count_keywords kws t" if e: "e \<in> set pre" for e
  proof (cases "P e")
    case True
    with e pre have "fst e \<in> set kpre" by (force simp: g_def)
    with l have "dict_get_score S (fst e) < dict_get_score S best" by blast
    moreover have "e \<in> set db" using e db by simp
    ultimately show ?thesis using score [of e] True sb by simp
  next
    case False
    with Px x show ?thesis by (simp add: P_def)
  qed
  have R: "count_keywords (snd e) t \<le> count_keywords kws t" if e: "e \<in> set post" for e
  proof (cases "P e")
    case True
    with e post have "fst e \<in> set kpost" by (force simp: g_def)
    with r have "dict_get_score S (fst e) \<le> dict_get_score S best" by blast
    moreover have "e \<in> set db" using e db by simp
    ultimately show ?thesis using score [of e] True sb by simp
  next
    case False
    with Px x show ?thesis by (simp add: P_def)
  qed
  have "identify_topic db text = Inr (Some topic) \<and>
     db = pre @ (topic, kws) # post \<and> 0 < topic_score text (topic, kws) \<and>
     (\<forall>e\<in>set pre. topic_score text e < topic_score text (topic, kws)) \<and>
     (\<forall>e\<in>set post. topic_score text e \<le> topic_score text (topic, kws))"
    using id best db x Px L R by (simp add: topic_score_def t_def P_def)
  then show ?thesis by blast
qed

lemma last_filter_keep: "xs \<noteq> [] \<Longrightarrow> P (last xs) \<Longrightarrow> last (filter P xs) = last xs"
proof (induction xs)
  case Nil
  then show ?case by simp
next
  case (Cons x xs)
  show ?case
  proof (cases "xs = []")
    case True
    with Cons.prems show ?thesis by simp
  next
    case False
    with Cons.prems have P: "P (last xs)" by simp
    with False have "last xs \<in> set (filter P xs)" by simp
    then have "filter P xs \<noteq> []" by (metis empty_iff list.set(1))
    with Cons.IH [OF False P] False show ?thesis by simp
  qed
qed

lemma sorted_map_last: "sorted (map f zs) \<Longrightarrow> e \<in> set zs \<Longrightarrow> f e \<le> f (last zs)"
  by (induction zs) auto

lemma first_filter_split:
  "filter P xs \<noteq> [] \<Longrightarrow>
   \<exists>pre post. xs = pre @ hd (filter P xs) # post \<and> (\<forall>e\<in>set pre. \<not> P e)"
proof (induction xs)
  case Nil
  then show ?case by simp
next
  case (Cons x xs)
  show ?case
  proof (cases "P x")
    case True
    then have "x # xs = [] @ hd (filter P (x # xs)) # xs \<and> (\<forall>e\<in>set []. \<not> P e)" by simp
    then show ?thesis by blast
  next
    case False
    with Cons.prems have "filter P xs \<noteq> []" by simp
    from Cons.IH [OF this] obtain pre post where
      "xs = pre @ hd (filter P xs) # post" "\<forall>e\<in>set pre. \<not> P e" by blast
    with False have "x # xs = (x # pre) @ hd (filter P (x # xs)) # post \<and>
      (\<forall>e\<in>set (x # pre). \<not> P e)" by simp
    then show ?thesis by blast
  qed
qed

lemma py_sort_reverse_first_greatest:
  fixes key :: "'a \<Rightarrow> int"
  assumes "xs \<noteq> []"
  shows "py_sort_reverse key xs \<noteq> [] \<and>
    (\<exists>pre post. xs = pre @ hd (py_sort_reverse key xs) # post \<and>
      (\<forall>e\<in>set pre. key e < key (hd (py_sort_reverse key xs))) \<and>
      (\<forall>e\<in>set post. key e \<le> key (hd (py_sort_reverse key xs))))"
proof -
  define zs where "zs = sort_key key (rev xs)"
  define h where "h = last zs"
  define P where "P = (\<lambda>e. key e = key h)"
  have ne: "zs \<noteq> []" using assms by (metis zs_def length_sort length_rev length_0_conv)
  have hd: "hd (py_sort_reverse key xs) = h"
    by (simp add: py_sort_reverse_def zs_def [symmetric] hd_rev h_def)
  have ne': "py_sort_reverse key xs \<noteq> []"
    using ne by (simp add: py_sort_reverse_def zs_def [symmetric])
  have setzs: "set zs = set xs" by (simp add: zs_def)
  have le: "key e \<le> key h" if "e \<in> set xs" for e
    using that sorted_map_last [of key zs e] setzs by (simp add: h_def zs_def)
  have "filter P zs = filter P (rev xs)" unfolding P_def zs_def by (rule sort_key_stable)
  moreover have "last (filter P zs) = h"
    using last_filter_keep [OF ne, of P] by (simp add: P_def h_def)
  ultimately have "last (rev (filter P xs)) = h" by (simp add: rev_filter)
  then have hf: "hd (filter P xs) = h" by (simp add: last_rev)
  have "h \<in> set xs" using ne setzs last_in_set [OF ne] by (simp add: h_def)
  then have "filter P xs \<noteq> []" by (auto simp: filter_empty_conv P_def)
  from first_filter_split [OF this] obtain pre post where
    d: "xs = pre @ h # post" and n: "\<forall>e\<in>set pre. \<not> P e" unfolding hf by blast
  have "\<forall>e\<in>set pre. key e < key h"
  proof
    fix e assume e: "e \<in> set pre"
    with d have "e \<in> set xs" by (metis Un_iff set_append)
    from le [OF this] n e show "key e < key h" by (auto simp: P_def)
  qed
  moreover have "\<forall>e\<in>set post. key e \<le> key h"
  proof
    fix e assume e: "e \<in> set post"
    with d have "e \<in> set xs" by (metis Un_iff set_append list.set_intros(2))
    from le [OF this] show "key e \<le> key h" .
  qed
  ultimately show ?thesis using d ne' unfolding hd by blast
qed

lemma first_greatest_unique:
  fixes f :: "'a \<Rightarrow> int"
  assumes "xs = pre @ x # post" "\<forall>e\<in>set pre. f e < f x" "\<forall>e\<in>set post. f e \<le> f x"
    and "xs = pre' @ x' # post'" "\<forall>e\<in>set pre'. f e < f x'" "\<forall>e\<in>set post'. f e \<le> f x'"
  shows "pre = pre' \<and> x = x' \<and> post = post'"
proof -
  from assms(1,4) have eq: "pre @ x # post = pre' @ x' # post'" by simp
  then consider us where "pre = pre' @ us" "us @ x # post = x' # post'"
    | us where "pre @ us = pre'" "x # post = us @ x' # post'"
    by (auto simp: append_eq_append_conv2)
  then show ?thesis
  proof cases
    case 1
    show ?thesis
    proof (cases us)
      case Nil
      with 1 show ?thesis by simp
    next
      case (Cons u us')
      with 1 have "x' \<in> set pre" "x \<in> set post'" by auto
      with assms(2,6) show ?thesis by fastforce
    qed
  next
    case 2
    show ?thesis
    proof (cases us)
      case Nil
      with 2 show ?thesis by simp
    next
      case (Cons u us')
      with 2 have "x \<in> set pre'" "x' \<in> set post" by auto
      with assms(3,5) show ?thesis by fastforce
    qed
  qed
qed

lemma fold_possible_issues:
  "fold (\<lambda>(issue_type, kws) possible_issues.
           let keyword_matches = count_keywords kws t
           in if keyword_matches > 0 then possible_issues @ [mk issue_type keyword_matches]
              else possible_issues)
        db acc =
   acc @ map (\<lambda>e. mk (fst e) (count_keywords (snd e) t))
           (filter (\<lambda>e. 0 < count_keywords (snd e) t) db)"
  by (induction db arbitrary: acc) (auto simp: Let_def)

lemma analyze_text_description_eq:
  "analyze_text_description db text =
     (let possible_issues =
            map (\<lambda>e. \<lparr>ptype = fst e, matches = count_keywords (snd e) (lower text),
                       pseverity = determine_severity (lower text) (fst e)\<rparr>)
              (filter (\<lambda>e. 0 < count_keywords (snd e) (lower text)) db)
      in if possible_issues \<noteq> [] then (TextAnalysis (py_sort_reverse matches possible_issues), 0.7)
         else (GeneralGuidance, 0.5))"
  using fold_possible_issues
    [of "lower text"
        "\<lambda>issue_type keyword_matches.
           \<lparr>ptype = issue_type, matches = keyword_matches,
            pseverity = determine_severity (lower text) issue_type\<rparr>" db "[]"]
  by (simp add: analyze_text_description_def Let_def)

lemma analyze_text_primary:
  assumes "fst (analyze_text_description db text) = TextAnalysis ps"
  shows "ps \<noteq> [] \<and> (\<exists>kws. first_greatest text db (ptype (hd ps), kws) \<and>
           matches (hd ps) = topic_score text (ptype (hd ps), kws))"
proof -
  define t where "t = lower text"
  define P where "P = (\<lambda>e :: string \<times> string list. 0 < count_keywords (snd e) t)"
  define g where "g = (\<lambda>e :: string \<times> string list.
    \<lparr>ptype = fst e, matches = count_keywords (snd e) t, pseverity = determine_severity t (fst e)\<rparr>)"
  define I where "I = map g (filter P db)"
  have eq: "analyze_text_description db text =
     (if I \<noteq> [] then (TextAnalysis (py_sort_reverse matches I), 0.7) else (GeneralGuidance, 0.5))"
    by (simp add: analyze_text_description_eq I_def g_def P_def t_def Let_def)
  with assms have ne: "I \<noteq> []" and ps: "ps = py_sort_reverse matches I"
    by (auto split: if_splits)
  from py_sort_reverse_first_greatest [OF ne, of matches] obtain ipre ipost where
    pne: "ps \<noteq> []" and d: "I = ipre @ hd ps # ipost"
    and l: "\<forall>e\<in>set ipre. matches e < matches (hd ps)"
    and r: "\<forall>e\<in>set ipost. matches e \<le> matches (hd ps)" unfolding ps by blast
  from d have "map g (filter P db) = ipre @ hd ps # ipost" by (simp add: I_def)
  from map_filter_split [OF this] obtain pre x post where
    db: "db = pre @ x # post" and Px: "P x" and gx: "g x = hd ps"
    and pre: "map g (filter P pre) = ipre" and post: "map g (filter P post) = ipost" by blast
  obtain topic kws where x: "x = (topic, kws)" by (cases x)
  from gx have hg: "hd ps = g x" by simp
  have ty: "ptype (hd ps) = topic" and m: "matches (hd ps) = count_keywords kws t"
    unfolding hg x by (simp_all add: g_def)
  have L: "count_keywords (snd e) t < count_keywords kws t" if e: "e \<in> set pre" for e
  proof (cases "P e")
    case True
    with e pre have "g e \<in> set ipre" by force
    with l m show ?thesis by (force simp: g_def)
  next
    case False
    with Px x show ?thesis by (simp add: P_def)
  qed
  have R: "count_keywords (snd e) t \<le> count_keywords kws t" if e: "e \<in> set post" for e
  proof (cases "P e")
    case True
    with e post have "g e \<in> set ipost" by force
    with r m show ?thesis by (force simp: g_def)
  next
    case False
    with Px x show ?thesis by (simp add: P_def)
  qed
  have "db = pre @ (topic, kws) # post \<and> 0 < topic_score text (topic, kws) \<and>
        (\<forall>e\<in>set pre. topic_score text e < topic_score text (topic, kws)) \<and>
        (\<forall>e\<in>set post. topic_score text e \<le> topic_score text (topic, kws))"
    using db x Px L R by (simp add: topic_score_def t_def P_def)
  then have "first_greatest text db (topic, kws)"
    unfolding first_greatest_def by blast
  with pne ty m show ?thesis by (auto simp: topic_score_def t_def)
qed

lemma analyze_text_general_iff:
  "fst (analyze_text_description db text) = GeneralGuidance \<longleftrightarrow>
     (\<forall>e\<in>set db. topic_score text e = 0)"
proof -
  have "\<not> 0 < count_keywords kws t \<longleftrightarrow> count_keywords kws t = 0" for kws t
    using count_keywords_nonneg [of kws t] by auto
  then show ?thesis
    by (simp add: analyze_text_description_eq Let_def filter_empty_conv topic_score_def)
qed

lemma first_greatest_same:
  assumes "distinct (map fst db)" "first_greatest text db (topic, kws)"
    "first_greatest text db (topic', kws')"
  shows "topic = topic'"
proof -
  from assms(2,3) obtain pre post pre' post' where
    "db = pre @ (topic, kws) # post"
    "\<forall>e\<in>set pre. topic_score text e < topic_score text (topic, kws)"
    "\<forall>e\<in>set post. topic_score text e \<le> topic_score text (topic, kws)"
    "db = pre' @ (topic', kws') # post'"
    "\<forall>e\<in>set pre'. topic_score text e < topic_score text (topic', kws')"
    "\<forall>e\<in>set post'. topic_score text e \<le> topic_score text (topic', kws')"
    unfolding first_greatest_def by blast
  from first_greatest_unique [OF this] show ?thesis by simp
qed

lemma legal_database_distinct: "distinct (map fst legal_database)"
  by (simp add: legal_database_def)

text \<open>
  C4. On a table with distinct topics (a dictionary), \<open>_identify_topic\<close> returns the
  topic of the entry that is first in the table's order among those with the greatest
  keyword score, and \<open>None\<close> exactly when every topic scores 0; it never raises. The
  text analysis of the issue agent reports on the same first-greatest entry of its
  table, and falls back to general guidance exactly when every issue type scores 0.
\<close>

theorem identify_first_greatest_topic:
  assumes "distinct (map fst db)"
  shows
    "(\<exists>r. identify_topic db text = Inr r) \<and>
     (identify_topic db text = Inr None \<longleftrightarrow> (\<forall>e\<in>set db. topic_score text e = 0)) \<and>
     (identify_topic db text = Inr (Some topic) \<longleftrightarrow>
        (\<exists>kws. first_greatest text db (topic, kws))) \<and>
     (fst (analyze_text_description db text) = GeneralGuidance \<longleftrightarrow>
        (\<forall>e\<in>set db. topic_score text e = 0)) \<and>
     (\<forall>ps. fst (analyze_text_description db text) = TextAnalysis ps \<longrightarrow>
        ps \<noteq> [] \<and> (\<exists>kws. first_greatest text db (ptype (hd ps), kws) \<and>
                        matches (hd ps) = topic_score text (ptype (hd ps), kws)))"
proof (cases "scored (lower text) db = []")
  case True
  then have z: "\<forall>e\<in>set db. topic_score text e = 0"
    by (simp add: scored_empty_iff topic_score_def)
  have n: "identify_topic db text = Inr None"
    using True by (simp add: identify_topic_scored [OF assms])
  have "\<not> first_greatest text db (topic, kws)" for kws
    using z by (auto simp: first_greatest_def)
  with z n show ?thesis
    using analyze_text_primary [of db "text"] analyze_text_general_iff [of db "text"] by auto
next
  case False
  then have nz: "\<not> (\<forall>e\<in>set db. topic_score text e = 0)"
    by (simp add: scored_empty_iff topic_score_def)
  from identify_topic_first_greatest [OF assms False] obtain topic' kws' where
    id: "identify_topic db text = Inr (Some topic')"
    and fg: "first_greatest text db (topic', kws')"
    unfolding first_greatest_def by blast
  have "(identify_topic db text = Inr (Some topic)) = (\<exists>kws. first_greatest text db (topic, kws))"
  proof
    assume "identify_topic db text = Inr (Some topic)"
    with id have "topic = topic'" by simp
    with fg show "\<exists>kws. first_greatest text db (topic, kws)" by blast
  next
    assume "\<exists>kws. first_greatest text db (topic, kws)"
    then obtain kws where "first_greatest text db (topic, kws)" by blast
    from first_greatest_same [OF assms this fg] id
    show "identify_topic db text = Inr (Some topic)" by simp
  qed
  with nz id show ?thesis
    using analyze_text_primary [of db "text"] analyze_text_general_iff [of db "text"] by auto
qed

theorem identify_first_greatest_topic_witness:
  "distinct (map fst legal_database) \<and>
   identify_topic legal_database ''evict rent hike'' = Inr (Some ''eviction'') \<and>
   identify_topic legal_database ''hello'' = Inr None \<and>
   fst (analyze_text_description legal_database ''hello'') = GeneralGuidance"
proof -
  define entry where
    "entry = (''eviction'', [''evict'', ''eviction'', ''kick out'', ''remove'', ''terminate lease''])"
  have db: "legal_database = [] @ entry # tl legal_database"
    by (simp add: legal_database_def entry_def)
  have pos: "0 < topic_score ''evict rent hike'' entry" unfolding entry_def by code_simp
  have "list_all (\<lambda>e. topic_score ''evict rent hike'' e \<le> topic_score ''evict rent hike'' entry)
          (tl legal_database)"
    unfolding entry_def by code_simp
  then have post: "\<forall>e\<in>set (tl legal_database).
      topic_score ''evict rent hike'' e \<le> topic_score ''evict rent hike'' entry"
    by (simp add: list_all_iff)
  have fg: "first_greatest ''evict rent hike'' legal_database entry"
    unfolding first_greatest_def using db pos post by (metis empty_iff list.set(1))
  have "list_all (\<lambda>e. topic_score ''hello'' e = 0) legal_database" by code_simp
  then have z: "\<forall>e\<in>set legal_database. topic_score ''hello'' e = 0" by (simp add: list_all_iff)
  show ?thesis
    using identify_first_greatest_topic [OF legal_database_distinct, of "''evict rent hike''" "''eviction''"]
      identify_first_greatest_topic [OF legal_database_distinct, of "''hello''" "''eviction''"]
      fg z legal_database_distinct
    unfolding entry_def by blast
qed

section \<open>Severity\<close>

lemma list_ex_str_in: "list_ex (\<lambda>w. str_in w t) ws \<longleftrightarrow> (\<exists>w\<in>set ws. occurs_in w t)"
  by (simp add: list_ex_iff str_in_iff)

text \<open>
  C8. On the lowered text, as both callers pass it, \<open>_determine_severity\<close> returns
  \<open>'severe'\<close> when one of extensive, large, major, severe, bad, terrible, everywhere
  occurs in it; otherwise \<open>'moderate'\<close> when one of noticeable, visible, concerning,
  growing, spreading occurs; otherwise \<open>'minor'\<close>. The issue type plays no part. The
  three example texts are severe, moderate and minor.
\<close>

theorem severity_first_matching_tier:
  "determine_severity (lower text) issue_type =
     (if \<exists>w\<in>set [''extensive'', ''large'', ''major'', ''severe'', ''bad'', ''terrible'',
                    ''everywhere'']. occurs_in w (lower text) then ''severe''
      else if \<exists>w\<in>set [''noticeable'', ''visible'', ''concerning'', ''growing'', ''spreading''].
                occurs_in w (lower text) then ''moderate''
      else ''minor'') \<and>
   determine_severity (lower ''there is extensive mold everywhere'') issue_type = ''severe'' \<and>
   determine_severity (lower ''a small noticeable stain'') issue_type = ''moderate'' \<and>
   determine_severity (lower ''a tiny mark'') issue_type = ''minor''"
proof -
  have a: "determine_severity d issue_type = determine_severity d []" for d
    by (simp add: determine_severity_def)
  have "determine_severity (lower ''there is extensive mold everywhere'') [] = ''severe''"
    by code_simp
  moreover have "determine_severity (lower ''a small noticeable stain'') [] = ''moderate''"
    by code_simp
  moreover have "determine_severity (lower ''a tiny mark'') [] = ''minor''"
    by code_simp
  moreover have "determine_severity (lower text) issue_type =
     (if \<exists>w\<in>set severe_indicators. occurs_in w (lower text) then ''severe''
      else if \<exists>w\<in>set moderate_indicators. occurs_in w (lower text) then ''moderate''
      else ''minor'')"
    unfolding determine_severity_def list_ex_str_in by (rule refl)
  ultimately show ?thesis
    unfolding severe_indicators_def moderate_indicators_def using a by metis
qed

section \<open>Confidence\<close>

lemma tenancy_matches_eq:
  "sum_list (map (\<lambda>keyword. 1) (filter (\<lambda>keyword. str_in (lower keyword) (lower text)) kws))
     = tenancy_keyword_matches kws text"
  by (induction kws) (simp_all add: tenancy_keyword_matches_def ci_occurs_def str_in_iff)

lemma tenancy_calculate_confidence_eq:
  "tenancy_calculate_confidence db locations text topic location =
     (case map_of db topic of
        None \<Rightarrow> Inl KeyError
      | Some kws \<Rightarrow>
          Inr (min 0.95 (max 0.6
                 (tenancy_adjusted locations (tenancy_keyword_matches kws text) location))))"
  by (simp add: tenancy_calculate_confidence_def tenancy_matches_eq Let_def tenancy_adjusted_def
           split: option.splits)

lemma tenancy_adjusted_bounds:
  "0.65 \<le> tenancy_adjusted locations m location \<and> tenancy_adjusted locations m location \<le> 0.95"
  by (simp add: tenancy_adjusted_def split: option.splits)

lemma tenancy_adjusted_mono:
  "1 \<le> m \<Longrightarrow> m \<le> m' \<Longrightarrow> tenancy_adjusted locations m location \<le> tenancy_adjusted locations m' location"
  by (simp add: tenancy_adjusted_def split: option.splits)

lemma map_of_key: "topic \<in> fst ` set db \<Longrightarrow> \<exists>kws. map_of db topic = Some kws"
  by (cases "map_of db topic") (auto simp: map_of_eq_None_iff)

lemma lower_char_idem: "lower_char (lower_char c) = lower_char c"
proof (cases "(65 \<le> (of_char c :: nat) \<and> (of_char c :: nat) \<le> 90) \<or>
        (192 \<le> (of_char c :: nat) \<and> (of_char c :: nat) \<le> 222 \<and> (of_char c :: nat) \<noteq> 215)")
  case False
  then have "lower_char c = c" unfolding lower_char_def Let_def by (simp only: if_False)
  then show ?thesis by simp
next
  case True
  then have l: "lower_char c = char_of (of_char c + 32 :: nat)"
    unfolding lower_char_def Let_def by (simp only: if_True)
  from True have m: "of_char (char_of (of_char c + 32 :: nat) :: char) = (of_char c + 32 :: nat)"
    by auto
  have "lower_char (char_of (of_char c + 32 :: nat)) = char_of (of_char c + 32 :: nat)"
    unfolding lower_char_def Let_def m using True by auto
  then show ?thesis unfolding l .
qed

lemma lower_idem: "lower (lower t) = lower t"
  by (simp add: lower_def lower_char_idem)

lemma occurs_in_lower: "occurs_in k (lower t) \<Longrightarrow> occurs_in (lower k) (lower t)"
proof -
  assume "occurs_in k (lower t)"
  then obtain ps ss where e: "lower t = ps @ k @ ss" by (auto simp: occurs_in_def)
  have "lower (ps @ k @ ss) = ps @ k @ ss" using lower_idem [of t] unfolding e .
  then have "lower ps @ lower k @ lower ss = ps @ k @ ss" by (simp add: lower_def)
  moreover have "length (lower ps) = length ps" by (simp add: lower_def)
  moreover have "length (lower k) = length k" by (simp add: lower_def)
  ultimately have "lower k = k" by simp
  with e show ?thesis by (auto simp: occurs_in_def)
qed

lemma sum_list_if_mono:
  "(\<And>x. x \<in> set xs \<Longrightarrow> P x \<Longrightarrow> Q x) \<Longrightarrow>
   (\<Sum>x\<leftarrow>xs. if P x then c else 0) \<le> (\<Sum>x\<leftarrow>xs. if Q x then c else (0::int))" if "0 \<le> c"
  using that by (induction xs) (auto intro: add_mono)

lemma topic_score_le_matches: "topic_score text (topic, kws) \<le> tenancy_keyword_matches kws text"
  unfolding topic_score_def tenancy_keyword_matches_def count_keywords_eq ci_occurs_def snd_conv
  by (rule sum_list_if_mono) (simp_all add: occurs_in_lower)

lemma first_greatest_entry:
  assumes "distinct (map fst db)" "first_greatest text db (topic, kws)"
  shows "map_of db topic = Some kws \<and> 0 < topic_score text (topic, kws)"
proof -
  from assms(2) have "(topic, kws) \<in> set db" "0 < topic_score text (topic, kws)"
    by (auto simp: first_greatest_def)
  with assms(1) show ?thesis by simp
qed

lemma identified_topic_entry:
  assumes "distinct (map fst db)" "identify_topic db text = Inr (Some topic)"
  shows "\<exists>kws. map_of db topic = Some kws \<and> 1 \<le> tenancy_keyword_matches kws text"
proof -
  from identify_topic_first_greatest [OF assms(1), of "text"] assms(2)
  have "\<exists>kws. first_greatest text db (topic, kws)"
    unfolding first_greatest_def
    by (cases "scored (lower text) db = []")
       (auto simp: identify_topic_scored [OF assms(1)])
  then obtain kws where "first_greatest text db (topic, kws)" by blast
  from first_greatest_entry [OF assms(1) this] topic_score_le_matches [of "text" topic kws]
  show ?thesis by auto
qed

lemma clamp_bounds:
  fixes x :: real
  shows "lo \<le> hi \<Longrightarrow> lo \<le> min hi (max lo x) \<and> min hi (max lo x) \<le> hi"
  by auto

lemma clamp_mono:
  fixes x :: real
  shows "x \<le> y \<Longrightarrow> min hi (max lo x) \<le> min hi (max lo y)"
  by (auto simp: min_def max_def)

lemma clamp_inside:
  fixes x :: real
  shows "lo \<le> x \<Longrightarrow> x \<le> hi \<Longrightarrow> min hi (max lo x) = x"
  by (auto simp: min_def max_def)

lemma issue_calculate_confidence_bounds:
  "detected_issues \<noteq> [] \<Longrightarrow>
   0.5 \<le> issue_calculate_confidence detected_issues n \<and>
   issue_calculate_confidence detected_issues n \<le> 0.95"
  using clamp_bounds [of "0.5" "0.95"]
  by (cases detected_issues) (simp_all add: issue_calculate_confidence_def Let_def)

lemma detection_confidence_mono: "k \<le> k' \<Longrightarrow> detection_confidence k \<le> detection_confidence k'"
  by (simp add: detection_confidence_def min_def)

lemma eviction_is_topic: "''eviction'' \<in> fst ` set legal_database"
  by (simp add: legal_database_def)

lemma eviction_entry: "map_of legal_database ''eviction'' = Some eviction_keywords"
  by (simp add: legal_database_def eviction_keywords_def)

lemma identify_evict: "identify_topic legal_database ''evict'' = Inr (Some ''eviction'')"
  by code_simp

lemma matches_evict: "tenancy_keyword_matches eviction_keywords ''evict'' = 1"
  unfolding tenancy_matches_eq [symmetric] by code_simp

lemma matches_eviction: "tenancy_keyword_matches eviction_keywords ''eviction'' = 2"
  unfolding tenancy_matches_eq [symmetric] by code_simp

lemma confidence_evict:
  "tenancy_calculate_confidence legal_database location_specific_notes ''evict'' ''eviction'' None
     = Inr 0.65"
  by (simp add: tenancy_calculate_confidence_eq eviction_entry matches_evict tenancy_adjusted_def)

lemma identify_topic_returns:
  assumes "distinct (map fst db)"
  shows "\<exists>r. identify_topic db text = Inr r"
proof (cases "scored (lower text) db = []")
  case True
  then show ?thesis by (simp add: identify_topic_scored [OF assms])
next
  case False
  from identify_topic_first_greatest [OF assms False] show ?thesis by blast
qed

lemma analyze_image_bounds:
  "0.5 \<le> analyze_image_with_context db description \<and>
   analyze_image_with_context db description \<le> 0.95"
proof (cases "simulate_image_analysis db description = []")
  case True
  then show ?thesis by (simp add: analyze_image_with_context_def)
next
  case False
  with issue_calculate_confidence_bounds [OF False, of "int (length description)"]
  show ?thesis by (simp add: analyze_image_with_context_def Let_def)
qed

lemma tenancy_process_request_bounds:
  assumes "distinct (map fst db)"
  shows "\<exists>c. tenancy_process_request db locations text location = Inr c \<and> 0.6 \<le> c \<and> c \<le> 0.95"
proof -
  from identify_topic_returns [OF assms, of "text"] obtain r where
    r: "identify_topic db text = Inr r" by blast
  show ?thesis
  proof (cases r)
    case None
    with r have "tenancy_process_request db locations text location = Inr 0.6"
      by (simp add: tenancy_process_request_def)
    then show ?thesis by (intro exI [of _ "0.6"]) simp
  next
    case (Some topic)
    with r identified_topic_entry [OF assms, of "text" topic] obtain kws where
      kws: "map_of db topic = Some kws" by blast
    show ?thesis
    proof (cases "topic = []")
      case True
      with r Some have "tenancy_process_request db locations text location = Inr 0.6"
        by (simp add: tenancy_process_request_def)
      then show ?thesis by (intro exI [of _ "0.6"]) simp
    next
      case False
      with r Some kws clamp_bounds [of "0.6" "0.95"] show ?thesis
        by (simp add: tenancy_process_request_def tenancy_calculate_confidence_eq)
    qed
  qed
qed

lemma simulate_image_analysis_confidence:
  assumes "d \<in> set (simulate_image_analysis db description)"
  shows "confidence d = detection_confidence (keywords_matched d) \<and> 0 < keywords_matched d"
proof -
  define t where "t = lower description"
  define g where "g = (\<lambda>e :: string \<times> string list.
    \<lparr>dtype = fst e, confidence = detection_confidence (count_keywords (snd e) t),
     dseverity = determine_severity t (fst e), keywords_matched = count_keywords (snd e) t\<rparr>)"
  define D where "D = map g (filter (\<lambda>e. 0 < count_keywords (snd e) t) db)"
  have "simulate_image_analysis db description = take 3 (py_sort_reverse confidence D)"
    using fold_possible_issues
      [of "lower description"
          "\<lambda>issue_type keyword_matches.
             \<lparr>dtype = issue_type, confidence = detection_confidence keyword_matches,
              dseverity = determine_severity (lower description) issue_type,
              keywords_matched = keyword_matches\<rparr>" db "[]"]
    by (simp add: simulate_image_analysis_def Let_def D_def g_def t_def)
  with assms have "d \<in> set (py_sort_reverse confidence D)" by (auto dest: in_set_takeD)
  then have "d \<in> set D" by (simp add: py_sort_reverse_def)
  then show ?thesis by (auto simp: D_def g_def)
qed

lemma simulate_leak_full:
  "simulate_image_analysis issue_database ''leak'' =
     [\<lparr>dtype = ''water_damage'', confidence = detection_confidence 1, dseverity = ''minor'',
       keywords_matched = 1\<rparr>]"
  by code_simp

text \<open>
  C5. With at least one detected issue the confidence of the issue agent lies in
  \<open>[0.5, 0.95]\<close>, whatever the issues' own confidences and the description length
  are, and so does the confidence returned with every image analysis. For a topic of
  the knowledge base the tenancy confidence is returned (no KeyError) and lies in
  \<open>[0.6, 0.95]\<close>, for every text and location; an identified topic is a topic of the
  knowledge base, and the confidence returned with every tenancy answer lies in
  \<open>[0.6, 0.95]\<close>.
\<close>

theorem confidence_within_documented_interval:
  "(detected_issues \<noteq> [] \<longrightarrow>
      0.5 \<le> issue_calculate_confidence detected_issues description_length \<and>
      issue_calculate_confidence detected_issues description_length \<le> 0.95) \<and>
   0.5 \<le> analyze_image_with_context issues description \<and>
   analyze_image_with_context issues description \<le> 0.95 \<and>
   (topic \<in> fst ` set db \<longrightarrow>
      (\<exists>c. tenancy_calculate_confidence db locations text topic location = Inr c \<and>
           0.6 \<le> c \<and> c \<le> 0.95)) \<and>
   (distinct (map fst db) \<and> identify_topic db text = Inr (Some topic) \<longrightarrow>
      topic \<in> fst ` set db) \<and>
   (distinct (map fst db) \<longrightarrow>
      (\<exists>c. tenancy_process_request db locations text location = Inr c \<and>
           0.6 \<le> c \<and> c \<le> 0.95))"
proof -
  have "\<exists>c. tenancy_calculate_confidence db locations text topic location = Inr c \<and>
           0.6 \<le> c \<and> c \<le> 0.95" if "topic \<in> fst ` set db"
  proof -
    from map_of_key [OF that] obtain kws where "map_of db topic = Some kws" by blast
    then show ?thesis
      using clamp_bounds [of "0.6" "0.95"] by (simp add: tenancy_calculate_confidence_eq)
  qed
  moreover have "topic \<in> fst ` set db"
    if "distinct (map fst db) \<and> identify_topic db text = Inr (Some topic)"
  proof -
    from that identified_topic_entry [of db "text" topic]
    obtain kws where "map_of db topic = Some kws" by blast
    then show ?thesis by (metis map_of_eq_None_iff option.distinct(1))
  qed
  ultimately show ?thesis
    using issue_calculate_confidence_bounds [of detected_issues description_length]
      analyze_image_bounds [of issues description]
      tenancy_process_request_bounds [of db locations "text" location]
    by blast
qed

theorem confidence_within_documented_interval_witness:
  "[\<lparr>dtype = ''water_damage'', confidence = 0.7, dseverity = ''minor'', keywords_matched = 1\<rparr>] \<noteq> [] \<and>
   0.5 \<le> issue_calculate_confidence
      [\<lparr>dtype = ''water_damage'', confidence = 0.7, dseverity = ''minor'', keywords_matched = 1\<rparr>] 5 \<and>
   issue_calculate_confidence
      [\<lparr>dtype = ''water_damage'', confidence = 0.7, dseverity = ''minor'', keywords_matched = 1\<rparr>] 5
     \<le> 0.95 \<and>
   ''eviction'' \<in> fst ` set legal_database \<and>
   (\<exists>c. tenancy_calculate_confidence legal_database location_specific_notes ''evict''
          ''eviction'' None = Inr c \<and> 0.6 \<le> c \<and> c \<le> 0.95) \<and>
   distinct (map fst legal_database) \<and>
   identify_topic legal_database ''evict'' = Inr (Some ''eviction'') \<and>
   (\<exists>c. tenancy_process_request legal_database location_specific_notes ''evict'' None = Inr c \<and>
        0.6 \<le> c \<and> c \<le> 0.95)"
  using confidence_within_documented_interval
    [of "[\<lparr>dtype = ''water_damage'', confidence = 0.7, dseverity = ''minor'', keywords_matched = 1\<rparr>]"
        5 issue_database "''leak''" "''eviction''" legal_database location_specific_notes
        "''evict''" None]
    eviction_is_topic legal_database_distinct identify_evict
  by simp

text \<open>
  C10. For a topic of the knowledge base, and so for every identified topic, the
  tenancy confidence is at least 0.65 and at most 0.95: the clamp floor 0.6 is never
  the result. The value 0.65 is reached on one keyword match without a location.
\<close>

theorem tenancy_confidence_at_least_065:
  "(topic \<in> fst ` set db \<longrightarrow>
      (\<exists>c. tenancy_calculate_confidence db locations text topic location = Inr c \<and>
           0.65 \<le> c \<and> c \<le> 0.95 \<and> c \<noteq> 0.6)) \<and>
   (distinct (map fst db) \<and> identify_topic db text = Inr (Some topic) \<longrightarrow>
      (\<exists>c. tenancy_calculate_confidence db locations text topic location = Inr c \<and>
           0.65 \<le> c \<and> c \<le> 0.95 \<and> c \<noteq> 0.6))"
proof -
  have r: "\<exists>c. tenancy_calculate_confidence db locations text topic location = Inr c \<and>
           0.65 \<le> c \<and> c \<le> 0.95 \<and> c \<noteq> 0.6" if "map_of db topic = Some kws" for kws
  proof -
    define a where "a = tenancy_adjusted locations (tenancy_keyword_matches kws text) location"
    have b: "0.65 \<le> a" "a \<le> 0.95"
      using tenancy_adjusted_bounds [of locations "tenancy_keyword_matches kws text" location]
      by (simp_all add: a_def)
    then have "min 0.95 (max 0.6 a) = a" by (intro clamp_inside) simp_all
    with b that show ?thesis by (simp add: tenancy_calculate_confidence_eq a_def)
  qed
  show ?thesis
    using r map_of_key [of topic db] identified_topic_entry [of db "text" topic] by blast
qed

theorem tenancy_confidence_at_least_065_witness:
  "''eviction'' \<in> fst ` set legal_database \<and>
   distinct (map fst legal_database) \<and>
   identify_topic legal_database ''evict'' = Inr (Some ''eviction'') \<and>
   (\<exists>c. tenancy_calculate_confidence legal_database location_specific_notes ''evict''
          ''eviction'' None = Inr c \<and> 0.65 \<le> c \<and> c \<le> 0.95 \<and> c \<noteq> 0.6) \<and>
   tenancy_calculate_confidence legal_database location_specific_notes ''evict''
          ''eviction'' None = Inr 0.65"
  using tenancy_confidence_at_least_065
    [of "''eviction''" legal_database location_specific_notes "''evict''" None]
    eviction_is_topic legal_database_distinct identify_evict confidence_evict
  by simp

text \<open>
  C7. Issue agent: every issue the simulated analysis detects has the confidence
  \<open>min(0.95, 0.6 + matches * 0.1)\<close> of its keyword matches; when the primary issue's
  confidence comes from more matches, with the description length and the number of
  further issues unchanged, the confidence does not decrease. Tenancy agent: for a
  topic identified on a text, a second text with at least as many keyword matches
  against that topic gets, with the same location, a confidence at least as great.
\<close>

theorem confidence_monotone_in_matches:
  "(d \<in> set (simulate_image_analysis issues description) \<longrightarrow>
      confidence d = detection_confidence (keywords_matched d)) \<and>
   (k \<le> k' \<and> confidence primary = detection_confidence k \<and>
    confidence primary' = detection_confidence k' \<and> length others = length others' \<longrightarrow>
      issue_calculate_confidence (primary # others) description_length
        \<le> issue_calculate_confidence (primary' # others') description_length) \<and>
   (distinct (map fst db) \<and> identify_topic db text = Inr (Some topic) \<and>
    map_of db topic = Some kws \<and>
    tenancy_keyword_matches kws text \<le> tenancy_keyword_matches kws text' \<longrightarrow>
      (\<exists>c c'. tenancy_calculate_confidence db locations text topic location = Inr c \<and>
              tenancy_calculate_confidence db locations text' topic location = Inr c' \<and>
              c \<le> c'))"
proof -
  have "issue_calculate_confidence (primary # others) description_length
        \<le> issue_calculate_confidence (primary' # others') description_length"
    if "k \<le> k'" "confidence primary = detection_confidence k"
      "confidence primary' = detection_confidence k'" "length others = length others'"
  proof -
    have c: "confidence primary \<le> confidence primary'"
      using detection_confidence_mono [OF that(1)] that(2,3) by simp
    have e: "(others = []) = (others' = [])" using that(4) by auto
    show ?thesis
      unfolding issue_calculate_confidence_def Let_def list.case
      by (rule clamp_mono) (use c e in auto)
  qed
  moreover have "\<exists>c c'. tenancy_calculate_confidence db locations text topic location = Inr c \<and>
              tenancy_calculate_confidence db locations text' topic location = Inr c' \<and>
              c \<le> c'"
    if d: "distinct (map fst db)" and i: "identify_topic db text = Inr (Some topic)"
      and m: "map_of db topic = Some kws"
      and le: "tenancy_keyword_matches kws text \<le> tenancy_keyword_matches kws text'"
  proof -
    from identified_topic_entry [OF d i] m have "1 \<le> tenancy_keyword_matches kws text" by auto
    from clamp_mono [OF tenancy_adjusted_mono [OF this le, of locations location]] m
    show ?thesis by (simp add: tenancy_calculate_confidence_eq)
  qed
  ultimately show ?thesis
    using simulate_image_analysis_confidence [of d issues description] by blast
qed

theorem confidence_monotone_in_matches_witness:
  "\<lparr>dtype = ''water_damage'', confidence = detection_confidence 1, dseverity = ''minor'',
     keywords_matched = 1\<rparr> \<in> set (simulate_image_analysis issue_database ''leak'') \<and>
   (1::int) \<le> 2 \<and>
   issue_calculate_confidence
     [\<lparr>dtype = ''water_damage'', confidence = detection_confidence 1, dseverity = ''minor'',
       keywords_matched = 1\<rparr>] 20
   \<le> issue_calculate_confidence
     [\<lparr>dtype = ''water_damage'', confidence = detection_confidence 2, dseverity = ''minor'',
       keywords_matched = 2\<rparr>] 20 \<and>
   distinct (map fst legal_database) \<and>
   identify_topic legal_database ''evict'' = Inr (Some ''eviction'') \<and>
   map_of legal_database ''eviction'' = Some eviction_keywords \<and>
   tenancy_keyword_matches eviction_keywords ''evict''
     \<le> tenancy_keyword_matches eviction_keywords ''eviction'' \<and>
   (\<exists>c c'. tenancy_calculate_confidence legal_database location_specific_notes ''evict''
             ''eviction'' None = Inr c \<and>
           tenancy_calculate_confidence legal_database location_specific_notes ''eviction''
             ''eviction'' None = Inr c' \<and> c \<le> c')"
  using confidence_monotone_in_matches
    [of "\<lparr>dtype = ''water_damage'', confidence = detection_confidence 1, dseverity = ''minor'',
          keywords_matched = 1\<rparr>" issue_database "''leak''" 1 2
        "\<lparr>dtype = ''water_damage'', confidence = detection_confidence 1, dseverity = ''minor'',
          keywords_matched = 1\<rparr>"
        "\<lparr>dtype = ''water_damage'', confidence = detection_confidence 2, dseverity = ''minor'',
          keywords_matched = 2\<rparr>"
        "[]" "[]" 20 legal_database "''evict''" "''eviction''" eviction_keywords "''eviction''"
        location_specific_notes None]
    legal_database_distinct identify_evict eviction_entry matches_evict matches_eviction
    simulate_leak_full
  by simp

section \<open>Adding text to a message\<close>

lemma lower_append: "lower (a @ b) = lower a @ lower b"
  by (simp add: lower_def)

lemma occurs_in_extend: "occurs_in k t \<Longrightarrow> occurs_in k (pre @ t @ post)"
proof -
  assume "occurs_in k t"
  then obtain ps ss where "t = ps @ k @ ss" by (auto simp: occurs_in_def)
  then have "pre @ t @ post = (pre @ ps) @ k @ (ss @ post)" by simp
  then show ?thesis unfolding occurs_in_def by blast
qed

lemma ci_occurs_extend: "ci_occurs k t \<Longrightarrow> ci_occurs k (pre @ t @ post)"
  unfolding ci_occurs_def lower_append by (rule occurs_in_extend)

lemma finds_match_extend: "finds_match r t \<Longrightarrow> finds_match r (pre @ t @ post)"
proof -
  assume "finds_match r t"
  then obtain ps w ss where "t = ps @ w @ ss" "w \<in> lang r" by (auto simp: finds_match_def)
  then have "pre @ t @ post = (pre @ ps) @ w @ (ss @ post) \<and> w \<in> lang r" by simp
  then show ?thesis unfolding finds_match_def by blast
qed

lemma issue_score_extend: "issue_score t \<le> issue_score (pre @ t @ post)"
  unfolding issue_score_eq lower_append
  by (intro add_mono sum_list_if_mono) (simp_all add: ci_occurs_extend finds_match_extend)

lemma tenancy_score_extend: "tenancy_score t \<le> tenancy_score (pre @ t @ post)"
  unfolding tenancy_score_eq lower_append
  by (intro add_mono sum_list_if_mono) (simp_all add: ci_occurs_extend finds_match_extend)

lemma agents_differ: "agent1 \<noteq> agent2" "agent1 \<noteq> router" "agent2 \<noteq> router"
  by (simp_all add: agent1_def agent2_def router_def)

lemma scores_fix_door: "tenancy_score ''fix door'' = 0 \<and> issue_score ''fix door'' = 2"
  by code_simp

lemma scores_insulation_move:
  "tenancy_score ''insulation move'' = 0 \<and> issue_score ''insulation move'' = 1"
  by code_simp

lemma scores_insulation_move_insulation:
  "tenancy_score ''insulation move insulation'' = 1 \<and>
   issue_score ''insulation move insulation'' = 1"
  by code_simp

text \<open>
  C6, as amended. Text added before or after a message never lowers the issue score.
  Without an image and on the same context: when the addition raises the tenancy score
  by no more than the issue score, the decision stays or moves toward issue detection,
  but for one case, two zero scores becoming a tie above zero, which the context's
  \<open>last_agent\<close> decides; when it leaves the tenancy score as it is, or raises it by
  less than the issue score, the decision stays or moves toward issue detection, and
  in the second case becomes \<open>'agent1'\<close> unless it was \<open>'agent2'\<close>. A decision for
  \<open>'agent1'\<close> stays whenever the tenancy score rises by no more than the issue score.
\<close>

theorem added_text_moves_toward_issue_detection:
  "\<exists>old new.
     route_request text False context = Inr old \<and>
     route_request (pre @ text @ post) False context = Inr new \<and>
     issue_score text \<le> issue_score (pre @ text @ post) \<and>
     (tenancy_score (pre @ text @ post) - tenancy_score text
        \<le> issue_score (pre @ text @ post) - issue_score text \<longrightarrow>
          new = old \<or> decision_rank old < decision_rank new \<or>
          (issue_score text = 0 \<and> tenancy_score text = 0 \<and>
           issue_score (pre @ text @ post) = tenancy_score (pre @ text @ post) \<and>
           0 < issue_score (pre @ text @ post) \<and>
           new = (case last_agent context of Some a \<Rightarrow> a | None \<Rightarrow> router))) \<and>
     (tenancy_score (pre @ text @ post) = tenancy_score text \<or>
      tenancy_score (pre @ text @ post) - tenancy_score text
        < issue_score (pre @ text @ post) - issue_score text \<longrightarrow>
          new = old \<or> decision_rank old < decision_rank new) \<and>
     (tenancy_score (pre @ text @ post) - tenancy_score text
        < issue_score (pre @ text @ post) - issue_score text \<and> old \<noteq> agent2 \<longrightarrow>
          new = agent1) \<and>
     (tenancy_score (pre @ text @ post) - tenancy_score text
        \<le> issue_score (pre @ text @ post) - issue_score text \<and> old = agent1 \<longrightarrow>
          new = agent1)"
proof -
  define i where "i = issue_score text"
  define t where "t = tenancy_score text"
  define i' where "i' = issue_score (pre @ text @ post)"
  define t' where "t' = tenancy_score (pre @ text @ post)"
  define tie where "tie = (case last_agent context of Some a \<Rightarrow> a | None \<Rightarrow> router)"
  define old where "old = (if t > i \<and> t > 0 then agent2 else if i > t \<and> i > 0 then agent1
                           else if i = t \<and> i > 0 then tie else router)"
  define new where "new = (if t' > i' \<and> t' > 0 then agent2 else if i' > t' \<and> i' > 0 then agent1
                           else if i' = t' \<and> i' > 0 then tie else router)"
  have ro: "route_request text False context = Inr old"
    by (simp add: route_request_tie old_def i_def t_def tie_def)
  have rn: "route_request (pre @ text @ post) False context = Inr new"
    by (simp add: route_request_tie new_def i'_def t'_def tie_def)
  have mi: "i \<le> i'" unfolding i_def i'_def by (rule issue_score_extend)
  have mt: "t \<le> t'" unfolding t_def t'_def by (rule tenancy_score_extend)
  have ni: "0 \<le> i" unfolding i_def by (rule issue_score_nonneg)
  have nt: "0 \<le> t" unfolding t_def by (rule tenancy_score_nonneg)
  have rk: "decision_rank agent2 = 0" "decision_rank agent1 = 2" "decision_rank router = 1"
    "\<And>a. a \<noteq> agent2 \<Longrightarrow> 0 < decision_rank a" "\<And>a. a \<noteq> agent1 \<Longrightarrow> decision_rank a < 2"
    using agents_differ by (auto simp: decision_rank_def)
  have A: "new = old \<or> decision_rank old < decision_rank new \<or>
          (i = 0 \<and> t = 0 \<and> i' = t' \<and> 0 < i' \<and> new = tie)" if d: "t' - t \<le> i' - i"
  proof -
    consider (ten) "t > i" | (iss) "i > t" | (tie) "i = t" "i > 0" | (zero) "i = 0" "t = 0"
      using ni nt by linarith
    then show ?thesis
    proof cases
      case ten
      then have o: "old = agent2" using nt ni by (simp add: old_def)
      show ?thesis
      proof (cases "new = agent2")
        case True
        with o show ?thesis by simp
      next
        case False
        with o rk(1,4) show ?thesis by simp
      qed
    next
      case iss
      with d mi ni nt have "i' > t'" "i' > 0" by linarith+
      with iss ni nt show ?thesis by (simp add: old_def new_def)
    next
      case tie
      then have o: "old = tie" by (simp add: old_def)
      from tie d mi have "i' \<ge> t'" "i' > 0" by linarith+
      then consider "i' = t'" | "i' > t'" by linarith
      then show ?thesis
      proof cases
        case 1
        with \<open>i' > 0\<close> o show ?thesis by (simp add: new_def)
      next
        case 2
        with \<open>i' > 0\<close> have n: "new = agent1" by (simp add: new_def)
        show ?thesis
        proof (cases "old = agent1")
          case True
          with n show ?thesis by simp
        next
          case False
          with n rk(2,5) show ?thesis by simp
        qed
      qed
    next
      case zero
      then have o: "old = router" by (simp add: old_def)
      from zero d mt have "i' \<ge> t'" "t' \<ge> 0" by linarith+
      then consider "i' = 0" "t' = 0" | "i' = t'" "i' > 0" | "i' > t'" by linarith
      then show ?thesis
      proof cases
        case 1
        with o show ?thesis by (simp add: new_def)
      next
        case 2
        with zero show ?thesis by (simp add: new_def)
      next
        case 3
        with \<open>t' \<ge> 0\<close> have "new = agent1" by (simp add: new_def)
        with o rk(2,3) show ?thesis by simp
      qed
    qed
  qed
  have B: "new = old \<or> decision_rank old < decision_rank new" if h: "t' = t \<or> t' - t < i' - i"
  proof -
    from h mi have d: "t' - t \<le> i' - i" by linarith
    from h have "\<not> (i = 0 \<and> t = 0 \<and> i' = t' \<and> 0 < i')" by linarith
    with A [OF d] show ?thesis by blast
  qed
  have C: "new = agent1" if s: "t' - t < i' - i" and na: "old \<noteq> agent2"
  proof -
    from na nt ni have "\<not> t > i" by (auto simp: old_def)
    with s have "i' > t'" by linarith
    moreover from this mt nt have "i' > 0" by linarith
    ultimately show ?thesis by (simp add: new_def)
  qed
  have D: "new = agent1" if d: "t' - t \<le> i' - i" and o: "old = agent1"
  proof -
    from o agents_differ have c: "(t < i \<and> 0 < i) \<or> (i = t \<and> 0 < i \<and> tie = agent1)"
      by (auto simp: old_def split: if_splits)
    then have "(t' < i' \<and> 0 < i') \<or> (i' = t' \<and> 0 < i' \<and> tie = agent1)"
      using d mi by auto
    then show ?thesis by (auto simp: new_def)
  qed
  show ?thesis
    using ro rn mi A B C D
    unfolding i_def t_def i'_def t'_def tie_def
    by blast
qed

theorem added_text_moves_toward_issue_detection_witness:
  "tenancy_score ('''' @ ''fix'' @ '' door'') = tenancy_score ''fix'' \<and>
   tenancy_score ('''' @ ''fix'' @ '' door'') - tenancy_score ''fix''
     < issue_score ('''' @ ''fix'' @ '' door'') - issue_score ''fix'' \<and>
   route_request ''fix'' False None = Inr agent1 \<and> agent1 \<noteq> agent2 \<and>
   issue_score ''fix'' \<le> issue_score ('''' @ ''fix'' @ '' door'') \<and>
   route_request ('''' @ ''fix'' @ '' door'') False None = Inr agent1"
proof -
  have o: "route_request ''fix'' False None = Inr agent1"
    by (simp add: route_request_tie scores_fix)
  have s: "tenancy_score ('''' @ ''fix'' @ '' door'') = tenancy_score ''fix''"
    "tenancy_score ('''' @ ''fix'' @ '' door'') - tenancy_score ''fix''
       < issue_score ('''' @ ''fix'' @ '' door'') - issue_score ''fix''"
    by (simp_all add: scores_fix scores_fix_door)
  from added_text_moves_toward_issue_detection [of "''fix''" None "''''" "'' door''"]
  obtain old new where
    r: "route_request ''fix'' False None = Inr old"
      "route_request ('''' @ ''fix'' @ '' door'') False None = Inr new"
      "issue_score ''fix'' \<le> issue_score ('''' @ ''fix'' @ '' door'')"
    and c: "tenancy_score ('''' @ ''fix'' @ '' door'') - tenancy_score ''fix''
        < issue_score ('''' @ ''fix'' @ '' door'') - issue_score ''fix'' \<and> old \<noteq> agent2 \<longrightarrow>
          new = agent1"
    by blast
  from r(1) o have "old = agent1" by simp
  with c s(2) agents_differ(1) have "new = agent1" by simp
  with r o s agents_differ(1) show ?thesis by simp
qed

text \<open>
  C6, as stated, fails. The issue keyword maintenance is a tenancy keyword too: added
  to the empty message it raises both scores from 0 to 1, and with \<open>last_agent\<close>
  \<open>'agent2'\<close> the decision moves from \<open>'router'\<close> (clarify) to \<open>'agent2'\<close> (tenancy
  FAQ). And one more occurrence of insulation after the word move completes the
  tenancy keyword \<open>move in\<close> while the issue score stays 1: the decision leaves
  \<open>'agent1'\<close> for \<open>'router'\<close>.
\<close>

theorem added_issue_keyword_counterexample:
  "''maintenance'' \<in> set issue_keywords \<and>
   issue_score '''' < issue_score ''maintenance'' \<and>
   route_request '''' False (Some [(''last_agent'', agent2)]) = Inr router \<and>
   route_request ''maintenance'' False (Some [(''last_agent'', agent2)]) = Inr agent2 \<and>
   decision_rank agent2 < decision_rank router \<and>
   ''insulation'' \<in> set issue_keywords \<and>
   route_request ''insulation move'' False None = Inr agent1 \<and>
   route_request (''insulation move'' @ '' insulation'') False None = Inr router \<and>
   decision_rank router < decision_rank agent1"
  using agents_differ
  by (simp add: route_request_tie scores_empty scores_maintenance scores_insulation_move
        scores_insulation_move_insulation last_agent_def issue_keywords_def decision_rank_def)

end
